theory Spec2Isabelle
  imports Main "HOL-Library.AList" "HOL-Library.Sublist"
begin

section \<open>Data model\<close>

text \<open>
  The chat backend keeps three stores: the Redis key/value store (presence entries
  \<open>user:<userId>\<close> and pending receipt entries
  \<open>messageStatus:<userId>:<roomId>:<messageId>\<close>), the connected sockets of the
  socket.io server, and the two document collections (chat rooms, messages).
  Identifiers are strings, as in the source.
\<close>

text \<open>
  Modelled from the spec: the enum \<open>MessageStatus\<close> is imported from
  \<open>enums/message-status.enum\<close>, which is not among the source files. Its members
  SENT, DELIVERED and SEEN are the ones the gateway and the service use; their string
  values \<open>SENT\<close>, \<open>DELIVERED\<close>, \<open>SEEN\<close> are those of the receipt states of the
  specification and of the enum kept as a comment in message.schema.ts.
\<close>

datatype MessageStatus = SENT | DELIVERED | SEEN

fun status_str :: "MessageStatus \<Rightarrow> string" where
  "status_str SENT = ''SENT''"
| "status_str DELIVERED = ''DELIVERED''"
| "status_str SEEN = ''SEEN''"

text \<open>The order SENT < DELIVERED < SEEN of the receipt state machine.\<close>

fun rank :: "MessageStatus \<Rightarrow> nat" where
  "rank SENT = 0"
| "rank DELIVERED = 1"
| "rank SEEN = 2"

datatype ParticipantStatus = ACCEPT | REJECT | BLOCKED | REQUEST

datatype RoomType = SINGLE | GROUP

record Participant =
  p_userId :: string
  p_status :: ParticipantStatus
  p_is_deleted :: bool

record ChatRoom =
  room_oid :: string
  room_name :: "string option"
  room_type :: RoomType
  room_status :: bool
  room_image :: "string option"
  participants :: "Participant list"
  admins :: "string list"
  room_created_by :: string
  room_updated_by :: string
  room_is_deleted :: bool

record Receiver =
  r_userId :: string
  r_status :: MessageStatus
  r_is_deleted :: bool

record Message =
  msg_oid :: string
  room_id :: string
  message :: string
  sender_id :: string
  receivers :: "Receiver list"
  createdAt :: nat
  msg_created_by :: string
  msg_updated_by :: string

text \<open>
  A connected socket: \<open>client['userId']\<close> (equal to \<open>client['user'].sub\<close>, both
  taken from the verified token), \<open>client['roomId']\<close>, and the socket.io rooms the
  socket has joined with \<open>client.join\<close>. The room that socket.io names after the
  socket's own id is left out: socket ids are not ids of chat rooms.
\<close>

record Socket =
  sock_userId :: string
  sock_roomId :: "string option"
  sock_rooms :: "string list"

record state =
  redis :: "(string \<times> string) list"
  sockets :: "string \<rightharpoonup> Socket"
  chatRooms :: "ChatRoom list"
  messages :: "Message list"

definition init_state :: state where
  "init_state = \<lparr>redis = [], sockets = Map.empty, chatRooms = [], messages = []\<rparr>"

section \<open>The Redis store\<close>

definition redis_get :: "(string \<times> string) list \<Rightarrow> string \<Rightarrow> string option" where
  "redis_get r k = map_of r k"

definition redis_set :: "string \<Rightarrow> string \<Rightarrow> (string \<times> string) list \<Rightarrow> (string \<times> string) list" where
  "redis_set k v r = AList.update k v r"

text \<open>\<open>DEL\<close> takes a key name, not a pattern: it removes the entry stored under exactly that key.\<close>

definition redis_del :: "string \<Rightarrow> (string \<times> string) list \<Rightarrow> (string \<times> string) list" where
  "redis_del k r = AList.delete k r"

text \<open>
  \<open>KEYS\<close> takes a glob pattern. The matcher covers \<open>*\<close> (any run of characters),
  \<open>?\<close> (any one character) and literal characters; the patterns the gateway builds
  end in \<open>*\<close> after a literal prefix.
\<close>

fun glob_match :: "string \<Rightarrow> string \<Rightarrow> bool" where
  "glob_match [] s = (s = [])"
| "glob_match (p # ps) [] = (p = CHR ''*'' \<and> glob_match ps [])"
| "glob_match (p # ps) (c # cs) =
     (if p = CHR ''*'' then glob_match ps (c # cs) \<or> glob_match (p # ps) cs
      else (p = CHR ''?'' \<or> p = c) \<and> glob_match ps cs)"

definition redis_keys :: "string \<Rightarrow> (string \<times> string) list \<Rightarrow> string list" where
  "redis_keys pat r = filter (glob_match pat) (map fst r)"

definition userKey :: "string \<Rightarrow> string" where
  "userKey userId = ''user:'' @ userId"

definition messageStatusKey :: "string \<Rightarrow> string \<Rightarrow> string \<Rightarrow> string" where
  "messageStatusKey userId roomId messageId =
     ''messageStatus:'' @ userId @ '':'' @ roomId @ '':'' @ messageId"

text \<open>\<open>key.split(':')\<close>: the result is never empty.\<close>

fun split_on :: "char \<Rightarrow> string \<Rightarrow> string list" where
  "split_on c [] = [[]]"
| "split_on c (x # xs) =
     (if x = c then [] # split_on c xs
      else (case split_on c xs of
              [] \<Rightarrow> [[x]]
            | part # parts \<Rightarrow> (x # part) # parts))"

section \<open>The message collection\<close>

text \<open>
  \<open>findById\<close> on messages and the receipt a message holds for a user: the first receiver
  with that user id, as \<open>receivers.find\<close> and the positional update \<open>receivers.$\<close>
  select it.
\<close>

definition getMessageById :: "Message list \<Rightarrow> string \<Rightarrow> Message option" where
  "getMessageById ms messageId = find (\<lambda>m. msg_oid m = messageId) ms"

definition receiver_of :: "Message \<Rightarrow> string \<Rightarrow> Receiver option" where
  "receiver_of m userId = find (\<lambda>r. r_userId r = userId) (receivers m)"

definition receipt :: "Message list \<Rightarrow> string \<Rightarrow> string \<Rightarrow> MessageStatus option" where
  "receipt ms messageId userId =
     (case getMessageById ms messageId of
        None \<Rightarrow> None
      | Some m \<Rightarrow> map_option r_status (receiver_of m userId))"

fun set_first_status :: "string \<Rightarrow> MessageStatus \<Rightarrow> Receiver list \<Rightarrow> Receiver list" where
  "set_first_status userId st [] = []"
| "set_first_status userId st (r # rs) =
     (if r_userId r = userId then r\<lparr>r_status := st\<rparr> # rs
      else r # set_first_status userId st rs)"

text \<open>
  \<open>updateOne({_id, 'receivers.userId': userId}, {$set: {'receivers.$.status': status}})\<close>:
  the first document that matches the filter has its first matching receiver updated;
  nothing happens when no document matches.
\<close>

fun updateOne_status :: "string \<Rightarrow> string \<Rightarrow> MessageStatus \<Rightarrow> Message list \<Rightarrow> Message list" where
  "updateOne_status messageId userId st [] = []"
| "updateOne_status messageId userId st (m # ms) =
     (if msg_oid m = messageId \<and> receiver_of m userId \<noteq> None
      then m\<lparr>receivers := set_first_status userId st (receivers m)\<rparr> # ms
      else m # updateOne_status messageId userId st ms)"

definition updateMessageStatus :: "string \<Rightarrow> string \<Rightarrow> MessageStatus \<Rightarrow> state \<Rightarrow> state" where
  "updateMessageStatus messageId userId st s =
     s\<lparr>messages := updateOne_status messageId userId st (messages s)\<rparr>"

text \<open>\<open>find({room_id}).sort({createdAt: 1})\<close>.\<close>

definition getMessagesForRoom :: "state \<Rightarrow> string \<Rightarrow> Message list" where
  "getMessagesForRoom s roomId =
     sort_key createdAt (filter (\<lambda>m. room_id m = roomId) (messages s))"

text \<open>
  \<open>saveMessage\<close>: one receiver per id, each with status SENT. The store assigns the
  document id and the creation time (parameters \<open>newId\<close>, \<open>now\<close>); an id already in
  the collection makes the insert fail (duplicate key).
\<close>

definition saveMessage ::
  "string \<Rightarrow> nat \<Rightarrow> string \<Rightarrow> string \<Rightarrow> string \<Rightarrow> string list \<Rightarrow> state \<Rightarrow> (Message \<times> state) option" where
  "saveMessage newId now roomId senderId body receiverIds s =
     (let newMessage = \<lparr>msg_oid = newId, room_id = roomId, message = body,
                         sender_id = senderId,
                         receivers = map (\<lambda>userId. \<lparr>r_userId = userId, r_status = SENT,
                                                     r_is_deleted = False\<rparr>) receiverIds,
                         createdAt = now, msg_created_by = senderId,
                         msg_updated_by = senderId\<rparr>
      in if newId \<in> set (map msg_oid (messages s)) then None
         else Some (newMessage, s\<lparr>messages := messages s @ [newMessage]\<rparr>))"

section \<open>The room collection\<close>

text \<open>\<open>getRoom\<close> raises NotFound when no room has the id (\<open>None\<close> here).\<close>

definition getRoom :: "state \<Rightarrow> string \<Rightarrow> ChatRoom option" where
  "getRoom s roomId = find (\<lambda>r. room_oid r = roomId) (chatRooms s)"

definition isUserInRoom :: "state \<Rightarrow> string \<Rightarrow> string \<Rightarrow> bool" where
  "isUserInRoom s roomId userId =
     (find (\<lambda>r. room_oid r = roomId \<and> userId \<in> set (map p_userId (participants r)))
           (chatRooms s) \<noteq> None)"

section \<open>The gateway\<close>

text \<open>
  The handlers of \<open>ChatGateway\<close>, as functions on the state. A handler runs for a
  connected socket, named by its socket id; the token has been verified (at connection,
  and again by the guard of each event, from the same handshake header). What a handler
  emits to clients is not part of the state; what it returns is.
\<close>

datatype reply = Reply_ok string | Reply_fail string

datatype load_reply = Load_ok "Message list" | Load_fail string

record unread_summary =
  totalUnreadCount :: nat
  roomUnreadCounts :: "(string \<times> nat) list"

text \<open>\<open>const [, , roomId] = key.split(':')\<close>: the third part, undefined when there is none.\<close>

definition third_part :: "string list \<Rightarrow> string option" where
  "third_part parts = (if 2 < length parts then Some (parts ! 2) else None)"

text \<open>\<open>roomUnreadCounts[roomId] = (roomUnreadCounts[roomId] || 0) + 1\<close>.\<close>

definition bump_count :: "string \<Rightarrow> (string \<times> nat) list \<Rightarrow> (string \<times> nat) list" where
  "bump_count roomId counts =
     AList.update roomId ((case map_of counts roomId of None \<Rightarrow> 0 | Some n \<Rightarrow> n) + 1) counts"

fun unread_loop :: "string \<Rightarrow> string list \<Rightarrow> unread_summary \<Rightarrow> state \<Rightarrow> unread_summary \<times> state" where
  "unread_loop userId [] acc s = (acc, s)"
| "unread_loop userId (key # keys) acc s =
     (let messageStatus = redis_get (redis s) key
      in if messageStatus = Some (status_str SENT) \<or> messageStatus = Some (status_str DELIVERED)
         then
           let roomId = third_part (split_on CHR '':'' key);
               acc1 = acc\<lparr>totalUnreadCount := totalUnreadCount acc + 1\<rparr>;
               acc2 = (case roomId of
                         None \<Rightarrow> acc1
                       | Some r \<Rightarrow> if r \<noteq> []
                                  then acc1\<lparr>roomUnreadCounts := bump_count r (roomUnreadCounts acc1)\<rparr>
                                  else acc1);
               s1 = s\<lparr>redis := redis_set key (status_str DELIVERED) (redis s)\<rparr>;
               messageId = last (split_on CHR '':'' key);
               s2 = updateMessageStatus messageId userId DELIVERED s1
           in unread_loop userId keys acc2 s2
         else unread_loop userId keys acc s)"

definition unread_pattern :: "string \<Rightarrow> string" where
  "unread_pattern userId = ''messageStatus:'' @ userId @ '':*''"

definition handleUnreadMessages :: "Socket \<Rightarrow> state \<Rightarrow> unread_summary \<times> state" where
  "handleUnreadMessages client s =
     (let userId = sock_userId client;
          unreadKeys = redis_keys (unread_pattern userId) (redis s)
      in unread_loop userId unreadKeys \<lparr>totalUnreadCount = 0, roomUnreadCounts = []\<rparr> s)"

text \<open>
  \<open>handleConnection\<close>: \<open>token\<close> is the result of \<open>verifyToken\<close>, \<open>None\<close> when it
  throws (the client is then disconnected and nothing is stored).
\<close>

definition handleConnection :: "string \<Rightarrow> string option \<Rightarrow> state \<Rightarrow> state" where
  "handleConnection clientId token s =
     (case token of
        None \<Rightarrow> s
      | Some userId \<Rightarrow>
          let client = \<lparr>sock_userId = userId, sock_roomId = None, sock_rooms = []\<rparr>;
              s1 = s\<lparr>sockets := (sockets s)(clientId \<mapsto> client)\<rparr>;
              s2 = s1\<lparr>redis := redis_set (userKey userId) clientId (redis s1)\<rparr>
          in snd (handleUnreadMessages client s2))"

definition handleDisconnect :: "string \<Rightarrow> state \<Rightarrow> state" where
  "handleDisconnect clientId s =
     (case sockets s clientId of
        None \<Rightarrow> s
      | Some client \<Rightarrow>
          let userId = sock_userId client;
              s1 = s\<lparr>sockets := (sockets s)(clientId := None)\<rparr>
          in if userId \<noteq> [] then s1\<lparr>redis := redis_del (userKey userId) (redis s1)\<rparr> else s1)"

text \<open>
  The cleanup of join-room and leave-room:
  \<open>redisClient.del(`messageStatus:${userId}:${roomId}:*`)\<close>.
\<close>

definition clear_messageStatus :: "string \<Rightarrow> string \<Rightarrow> state \<Rightarrow> state" where
  "clear_messageStatus userId roomId s =
     s\<lparr>redis := redis_del (messageStatusKey userId roomId ''*'') (redis s)\<rparr>"

fun load_loop :: "string \<Rightarrow> string \<Rightarrow> Message list \<Rightarrow> state \<Rightarrow> state" where
  "load_loop userId roomId [] s = s"
| "load_loop userId roomId (m # ms) s =
     (let s1 = updateMessageStatus (msg_oid m) userId SEEN s;
          s2 = s1\<lparr>redis := redis_del (messageStatusKey userId roomId (msg_oid m)) (redis s1)\<rparr>
      in load_loop userId roomId ms s2)"

definition is_unread_for :: "string \<Rightarrow> Message \<Rightarrow> bool" where
  "is_unread_for userId m =
     (case receiver_of m userId of None \<Rightarrow> False | Some receiver \<Rightarrow> r_status receiver \<noteq> SEEN)"

definition handleLoadMessages :: "string \<Rightarrow> state \<Rightarrow> load_reply \<times> state" where
  "handleLoadMessages clientId s =
     (case sockets s clientId of
        None \<Rightarrow> (Load_fail ''An error occurred while loading messages'', s)
      | Some client \<Rightarrow>
          (case sock_roomId client of
             None \<Rightarrow> (Load_fail ''You are not in a room'', s)
           | Some roomId \<Rightarrow>
               if roomId = [] then (Load_fail ''You are not in a room'', s)
               else
                 let userId = sock_userId client;
                     msgs = getMessagesForRoom s roomId;
                     unreadMessages = filter (is_unread_for userId) msgs
                 in if unreadMessages = [] then (Load_ok msgs, s)
                    else (Load_ok msgs, load_loop userId roomId unreadMessages s)))"

text \<open>
  \<open>handleJoinRoom\<close>. The validation pipe rejects an empty room id before the handler
  runs. \<open>getRoom\<close> raises NotFound for a missing room, which the handler's \<open>catch\<close>
  turns into the generic failure reply.
\<close>

definition handleJoinRoom :: "string \<Rightarrow> string \<Rightarrow> state \<Rightarrow> reply \<times> state" where
  "handleJoinRoom clientId roomId s =
     (case sockets s clientId of
        None \<Rightarrow> (Reply_fail ''An error occurred while joining the room'', s)
      | Some client \<Rightarrow>
          if roomId = [] then (Reply_fail ''Room ID is required.'', s)
          else
            let userId = sock_userId client;
                client1 = client\<lparr>sock_roomId := Some roomId\<rparr>;
                s1 = s\<lparr>sockets := (sockets s)(clientId \<mapsto> client1)\<rparr>
            in (case getRoom s1 roomId of
                  None \<Rightarrow> (Reply_fail ''An error occurred while joining the room'', s1)
                | Some room \<Rightarrow>
                    if \<not> isUserInRoom s1 roomId userId
                    then (Reply_fail ''You are not authorized to join this room'', s1)
                    else
                      let client2 = client1\<lparr>sock_rooms := List.insert roomId (sock_rooms client1)\<rparr>;
                          s2 = s1\<lparr>sockets := (sockets s1)(clientId \<mapsto> client2)\<rparr>;
                          s3 = clear_messageStatus userId roomId s2;
                          s4 = snd (handleLoadMessages clientId s3)
                      in (Reply_ok ''Room joined successfully.'', s4)))"

definition handleLeaveRoom :: "string \<Rightarrow> state \<Rightarrow> reply \<times> state" where
  "handleLeaveRoom clientId s =
     (case sockets s clientId of
        None \<Rightarrow> (Reply_fail ''An error occurred while leaving the room'', s)
      | Some client \<Rightarrow>
          (case sock_roomId client of
             None \<Rightarrow> (Reply_fail ''An error occurred while leaving the room'', s)
           | Some roomId \<Rightarrow>
               (case getRoom s roomId of
                  None \<Rightarrow> (Reply_fail ''An error occurred while leaving the room'', s)
                | Some room \<Rightarrow>
                    let userId = sock_userId client
                    in if \<not> isUserInRoom s roomId userId
                       then (Reply_fail ''You are not authorized to leave this room'', s)
                       else
                         let client1 = client\<lparr>sock_rooms := removeAll roomId (sock_rooms client)\<rparr>;
                             s1 = s\<lparr>sockets := (sockets s)(clientId \<mapsto> client1)\<rparr>;
                             s2 = clear_messageStatus userId roomId s1;
                             s3 = snd (handleUnreadMessages client1 s2)
                         in (Reply_ok ''Room left successfully.'', s3))))"

text \<open>
  The body of the loop over the recipients in \<open>handleSendMessage\<close>. The socket.io room
  \<open>roomClients\<close> holds the ids of the connected sockets that joined \<open>roomId\<close>.
\<close>

definition deliver :: "string \<Rightarrow> string \<Rightarrow> string \<Rightarrow> state \<Rightarrow> state" where
  "deliver roomId messageId participantId s =
     (let key = messageStatusKey participantId roomId messageId;
          clientId = redis_get (redis s) (userKey participantId)
      in if clientId \<noteq> None \<and> clientId \<noteq> Some []
         then
           (case sockets s (the clientId) of
              None \<Rightarrow> s
            | Some socket \<Rightarrow>
                if roomId \<in> set (sock_rooms socket)
                then
                  let s1 = s\<lparr>redis := redis_set key (status_str SEEN) (redis s)\<rparr>
                  in updateMessageStatus messageId participantId SEEN s1
                else
                  let s1 = s\<lparr>redis := redis_set key (status_str DELIVERED) (redis s)\<rparr>;
                      s2 = updateMessageStatus messageId participantId DELIVERED s1
                  in snd (handleUnreadMessages socket s2))
         else s\<lparr>redis := redis_set key (status_str SENT) (redis s)\<rparr>)"

fun deliver_loop :: "string \<Rightarrow> string \<Rightarrow> string list \<Rightarrow> state \<Rightarrow> state" where
  "deliver_loop roomId messageId [] s = s"
| "deliver_loop roomId messageId (participantId # rest) s =
     deliver_loop roomId messageId rest (deliver roomId messageId participantId s)"

text \<open>The recipients of a send: the room's participants without the sender.\<close>

definition recipients_of :: "ChatRoom \<Rightarrow> string \<Rightarrow> string list" where
  "recipients_of room senderId =
     filter (\<lambda>userId. userId \<noteq> senderId) (map p_userId (participants room))"

definition handleSendMessage :: "string \<Rightarrow> string \<Rightarrow> string \<Rightarrow> nat \<Rightarrow> state \<Rightarrow> reply \<times> state" where
  "handleSendMessage clientId body newId now s =
     (case sockets s clientId of
        None \<Rightarrow> (Reply_fail ''An error occurred while sending the message'', s)
      | Some client \<Rightarrow>
          if body = [] then (Reply_fail ''Must be at least 1 character.'', s)
          else
            (case sock_roomId client of
               None \<Rightarrow> (Reply_fail ''You are not in a room'', s)
             | Some roomId \<Rightarrow>
                 if roomId = [] then (Reply_fail ''You are not in a room'', s)
                 else
                   let senderId = sock_userId client
                   in (case getRoom s roomId of
                         None \<Rightarrow> (Reply_fail ''An error occurred while sending the message'', s)
                       | Some room \<Rightarrow>
                           if \<not> isUserInRoom s roomId senderId
                           then (Reply_fail ''You are not a participant of this room'', s)
                           else
                             let recipients = recipients_of room senderId
                             in (case saveMessage newId now roomId senderId body recipients s of
                                   None \<Rightarrow> (Reply_fail ''An error occurred while sending the message'', s)
                                 | Some (savedMessage, s1) \<Rightarrow>
                                     (Reply_ok ''Success'',
                                      deliver_loop roomId (msg_oid savedMessage) recipients s1)))))"

section \<open>Creating a room\<close>

datatype http_error =
    ConflictException string
  | BadRequestException string
  | NotFoundException string
  | UnauthorizedException string

record CreateRoomDto =
  dto_name :: "string option"
  dto_type :: RoomType
  dto_image :: "string option"
  dto_participantIds :: "string list"

text \<open>
  \<open>ChatService.createRoom\<close>, with the two schema hooks of the room collection
  (\<open>pre('validate')\<close>, \<open>pre('save')\<close>). Whatever is raised inside the \<open>try\<close> and is
  not a Conflict comes out as BadRequest. The store assigns the room id (\<open>newId\<close>).
\<close>

definition empty_name :: "string option \<Rightarrow> bool" where
  "empty_name n = (n = None \<or> n = Some [])"

definition service_createRoom ::
  "CreateRoomDto \<Rightarrow> Participant list \<Rightarrow> string \<Rightarrow> string \<Rightarrow> state \<Rightarrow> (http_error + ChatRoom) \<times> state" where
  "service_createRoom dto parts userId newId s =
     (let single_conflict =
            (if dto_type dto = SINGLE then
               (case parts of
                  [] \<Rightarrow> Some (BadRequestException ''Not able to process request'')
                | p0 # _ \<Rightarrow>
                    if find (\<lambda>r. room_type r = SINGLE
                                  \<and> userId \<in> set (map p_userId (participants r))
                                  \<and> p_userId p0 \<in> set (map p_userId (participants r)))
                            (chatRooms s) \<noteq> None
                    then Some (ConflictException ''A single room with this user already exists'')
                    else if length parts \<noteq> 1
                    then Some (ConflictException
                           ''You can't provide more than one participant for a single room'')
                    else None)
             else None)
      in case single_conflict of
           Some e \<Rightarrow> (Inl e, s)
         | None \<Rightarrow>
             let parts1 = parts @ [\<lparr>p_userId = userId, p_status = ACCEPT, p_is_deleted = False\<rparr>]
             in if (dto_type dto = GROUP \<and> empty_name (dto_name dto))
                   \<or> (dto_type dto = SINGLE \<and> \<not> empty_name (dto_name dto))
                   \<or> newId \<in> set (map room_oid (chatRooms s))
                then (Inl (BadRequestException ''Not able to process request''), s)
                else
                  let room = \<lparr>room_oid = newId, room_name = dto_name dto,
                              room_type = dto_type dto, room_status = True,
                              room_image = (if dto_type dto = SINGLE then None
                                            else if empty_name (dto_image dto) then Some []
                                            else dto_image dto),
                              participants = parts1, admins = [userId],
                              room_created_by = userId, room_updated_by = userId,
                              room_is_deleted = False\<rparr>
                  in (Inr room, s\<lparr>chatRooms := chatRooms s @ [room]\<rparr>))"

text \<open>\<open>ChatController.createRoom\<close>, for a request body that passed the validation pipe.\<close>

definition createRoom ::
  "CreateRoomDto \<Rightarrow> string \<Rightarrow> string \<Rightarrow> state \<Rightarrow> (http_error + ChatRoom) \<times> state" where
  "createRoom createRoomDto userId newId s =
     (if userId \<in> set (dto_participantIds createRoomDto)
      then (Inl (ConflictException
                  ''You can't include your own user ID in the participants array''), s)
      else
        let parts = map (\<lambda>uid. \<lparr>p_userId = uid, p_status = REQUEST, p_is_deleted = False\<rparr>)
                        (dto_participantIds createRoomDto)
        in service_createRoom createRoomDto parts userId newId s)"

definition is_invalid_argument :: "(http_error + ChatRoom) \<Rightarrow> bool" where
  "is_invalid_argument res = (case res of Inl (BadRequestException _) \<Rightarrow> True | _ \<Rightarrow> False)"

text \<open>
  The pending entries of a user that the unread sweep counts: the keys that match the
  user's pattern and hold SENT or DELIVERED. \<open>room_count\<close> reads a per-room count,
  0 when the room has none.
\<close>

definition counted :: "state \<Rightarrow> string \<Rightarrow> bool" where
  "counted s k = (redis_get (redis s) k = Some (status_str SENT)
                  \<or> redis_get (redis s) k = Some (status_str DELIVERED))"



text \<open>
  The recipient's presence entry names a connected socket that is in the socket.io room
  of \<open>roomId\<close>: the condition under which the send loop takes its SEEN branch.
\<close>

definition joined :: "state \<Rightarrow> string \<Rightarrow> string \<Rightarrow> bool" where
  "joined s roomId participantId =
     (case redis_get (redis s) (userKey participantId) of
        None \<Rightarrow> False
      | Some clientId \<Rightarrow>
          clientId \<noteq> []
          \<and> (case sockets s clientId of
                 None \<Rightarrow> False
               | Some socket \<Rightarrow> roomId \<in> set (sock_rooms socket)))"

section \<open>Sequences of operations\<close>

datatype event =
    Connect string "string option"
  | Disconnect string
  | JoinRoom string string
  | LeaveRoom string
  | SendMessage string string string nat
  | LoadMessages string
  | UnreadMessages string
  | CreateRoom CreateRoomDto string string

text \<open>
  One operation of the system. A connection gets a socket id that no connected socket
  has; an event of a socket that is not connected does not occur.
\<close>

fun step :: "event \<Rightarrow> state \<Rightarrow> state" where
  "step (Connect clientId token) s =
     (if sockets s clientId = None then handleConnection clientId token s else s)"
| "step (Disconnect clientId) s = handleDisconnect clientId s"
| "step (JoinRoom clientId roomId) s = snd (handleJoinRoom clientId roomId s)"
| "step (LeaveRoom clientId) s = snd (handleLeaveRoom clientId s)"
| "step (SendMessage clientId body newId now) s = snd (handleSendMessage clientId body newId now s)"
| "step (LoadMessages clientId) s = snd (handleLoadMessages clientId s)"
| "step (UnreadMessages clientId) s =
     (case sockets s clientId of None \<Rightarrow> s | Some client \<Rightarrow> snd (handleUnreadMessages client s))"
| "step (CreateRoom dto userId newId) s = snd (createRoom dto userId newId s)"

fun run :: "event list \<Rightarrow> state \<Rightarrow> state" where
  "run [] s = s"
| "run (e # es) s = run es (step e s)"

text \<open>The literal part of the pattern of the unread sweep.\<close>

definition user_prefix :: "string \<Rightarrow> string" where
  "user_prefix userId = ''messageStatus:'' @ userId @ '':''"

text \<open>
  Identifiers as the identity provider and the document store issue them (UUIDs,
  ObjectIds): free of the key separator \<open>:\<close> and of the glob characters of \<open>KEYS\<close>.
\<close>

definition wf_id :: "string \<Rightarrow> bool" where
  "wf_id x = (\<forall>c \<in> set x. c \<notin> set [CHR '':'', CHR ''*'', CHR ''?'', CHR ''['', CHR '']'', CHR 0x5C])"

fun wf_event :: "event \<Rightarrow> bool" where
  "wf_event (Connect clientId token) = (case token of None \<Rightarrow> True | Some userId \<Rightarrow> wf_id userId)"
| "wf_event (SendMessage clientId body newId now) = wf_id newId"
| "wf_event (CreateRoom dto userId newId) =
     (wf_id userId \<and> wf_id newId \<and> (\<forall>p \<in> set (dto_participantIds dto). wf_id p))"
| "wf_event _ = True"

definition ids_ok :: "state \<Rightarrow> bool" where
  "ids_ok s =
     ((\<forall>room \<in> set (chatRooms s). wf_id (room_oid room)
          \<and> (\<forall>p \<in> set (participants room). wf_id (p_userId p)))
      \<and> (\<forall>sock \<in> ran (sockets s). wf_id (sock_userId sock))
      \<and> (\<forall>x \<in> set (map msg_oid (messages s)). wf_id x)
      \<and> (\<forall>x \<in> set (map room_id (messages s)). wf_id x)
      \<and> distinct (map msg_oid (messages s)))"

text \<open>
  A pending entry agrees with the receipts: its key names a user, a room and a message,
  and while its value is SENT or DELIVERED the message is stored, belongs to that room,
  and its receipt for that user is not SEEN.
\<close>

definition room_of :: "Message list \<Rightarrow> string \<Rightarrow> string option" where
  "room_of ms messageId = map_option room_id (getMessageById ms messageId)"

definition pending_entry_ok :: "Message list \<Rightarrow> string \<Rightarrow> string \<Rightarrow> bool" where
  "pending_entry_ok ms k v =
     (case split_on CHR '':'' k of
        [t, p, r, m] \<Rightarrow>
          wf_id p \<and> wf_id r \<and> wf_id m
          \<and> ((v = status_str SENT \<or> v = status_str DELIVERED) \<longrightarrow>
               receipt ms m p \<noteq> Some SEEN \<and> room_of ms m = Some r)
      | _ \<Rightarrow> False)"

definition pending_ok :: "state \<Rightarrow> bool" where
  "pending_ok s =
     (\<forall>(k, v) \<in> set (redis s).
        prefix ''messageStatus:'' k \<longrightarrow> redis_get (redis s) k = Some v \<longrightarrow>
        pending_entry_ok (messages s) k v)"

text \<open>No receipt of the first collection is missing or lower in the second.\<close>

definition receipts_mono :: "Message list \<Rightarrow> Message list \<Rightarrow> bool" where
  "receipts_mono ms ms' =
     (\<forall>m u st. receipt ms m u = Some st \<longrightarrow>
        (\<exists>st'. receipt ms' m u = Some st' \<and> rank st \<le> rank st'))"

text \<open>No receipt of the first collection that is past SENT is missing or SENT in the second.\<close>

definition receipts_past_sent :: "Message list \<Rightarrow> Message list \<Rightarrow> bool" where
  "receipts_past_sent ms ms' =
     (\<forall>m u st. receipt ms m u = Some st \<longrightarrow> st \<noteq> SENT \<longrightarrow>
        (\<exists>st'. receipt ms' m u = Some st' \<and> st' \<noteq> SENT))"

definition consistent :: "state \<Rightarrow> bool" where
  "consistent s = (ids_ok s \<and> pending_ok s)"

text \<open>
  The pending index as a projection of the receipts. A presence entry names a connected
  socket of that user; connected users have non-empty ids; every receipt that is SENT
  or DELIVERED has its pending entry, with value SENT or DELIVERED; every such entry
  has its receipt.
\<close>

fun named_event :: "event \<Rightarrow> bool" where
  "named_event (Connect clientId token) = (token \<noteq> Some [])"
| "named_event _ = True"

definition presence_ok :: "state \<Rightarrow> bool" where
  "presence_ok s =
     (\<forall>userId clientId.
        redis_get (redis s) (userKey userId) = Some clientId \<longrightarrow> clientId \<noteq> [] \<longrightarrow>
        (\<exists>socket. sockets s clientId = Some socket \<and> sock_userId socket = userId))"

definition named_sockets :: "state \<Rightarrow> bool" where
  "named_sockets s = (\<forall>socket \<in> ran (sockets s). sock_userId socket \<noteq> [])"

definition index_complete :: "state \<Rightarrow> bool" where
  "index_complete s =
     (\<forall>m p r.
        receipt (messages s) m p = Some SENT \<or> receipt (messages s) m p = Some DELIVERED \<longrightarrow>
        room_of (messages s) m = Some r \<longrightarrow>
        counted s (messageStatusKey p r m))"

text \<open>
  The same while a send is under way: the receipts of the new message \<open>m\<close> are
  constrained for the recipients \<open>D\<close> the loop has handled.
\<close>

definition index_complete_upto :: "state \<Rightarrow> string \<Rightarrow> string set \<Rightarrow> bool" where
  "index_complete_upto s m D =
     (\<forall>m' p r.
        receipt (messages s) m' p = Some SENT \<or> receipt (messages s) m' p = Some DELIVERED \<longrightarrow>
        room_of (messages s) m' = Some r \<longrightarrow> m' \<noteq> m \<or> p \<in> D \<longrightarrow>
        counted s (messageStatusKey p r m'))"

definition entries_have_receipts :: "state \<Rightarrow> bool" where
  "entries_have_receipts s =
     (\<forall>p r m. wf_id p \<longrightarrow> wf_id r \<longrightarrow> wf_id m \<longrightarrow>
        counted s (messageStatusKey p r m) \<longrightarrow> receipt (messages s) m p \<noteq> None)"

definition projection_ok :: "state \<Rightarrow> bool" where
  "projection_ok s =
     (consistent s \<and> presence_ok s \<and> named_sockets s \<and> index_complete s
      \<and> entries_have_receipts s)"

section \<open>A worked scenario\<close>

text \<open>alice creates the group room Team with bob.\<close>

definition ex_room_id :: string where
  "ex_room_id = ''64b000000000000000000001''"

definition ex_msg_id :: string where
  "ex_msg_id = ''64b0000000000000000000a1''"

definition ex_dto :: CreateRoomDto where
  "ex_dto = \<lparr>dto_name = Some ''Team'', dto_type = GROUP, dto_image = None,
             dto_participantIds = [''bob'']\<rparr>"

definition ex_room_state :: state where
  "ex_room_state = snd (createRoom ex_dto ''alice'' ex_room_id init_state)"


text \<open>
  alice has joined the room of alice and bob and sends a message while bob is not
  connected; \<open>ex_bob\<close> is the socket bob connects with afterwards.
\<close>

definition ex_before_send :: state where
  "ex_before_send = run [CreateRoom ex_dto ''alice'' ex_room_id,
                         Connect ''c1'' (Some ''alice''), JoinRoom ''c1'' ex_room_id] init_state"

definition ex_after_send :: state where
  "ex_after_send = snd (handleSendMessage ''c1'' ''hi'' ex_msg_id 1 ex_before_send)"


text \<open>Both alice and bob have joined the room.\<close>

definition ex_both_joined :: state where
  "ex_both_joined = run [CreateRoom ex_dto ''alice'' ex_room_id,
                         Connect ''c1'' (Some ''alice''), JoinRoom ''c1'' ex_room_id,
                         Connect ''c2'' (Some ''bob''), JoinRoom ''c2'' ex_room_id] init_state"

section \<open>Presence\<close>

lemmas store_defs = redis_get_def redis_set_def redis_del_def redis_keys_def userKey_def
  messageStatusKey_def

lemma map_of_delete_same: "map_of (AList.delete k r) k = None"
  by (induction r) auto

text \<open>
  C1 (as the source has it). \<open>handleDisconnect\<close> deletes the presence entry of the
  socket's user without comparing the stored socket id with its own: after the disconnect
  of any connected socket of a user with a non-empty id, the presence lookup of that
  user finds nothing, whichever socket id was stored.
\<close>

theorem disconnect_removes_presence_entry:
  assumes "sockets s c = Some client" and "sock_userId client \<noteq> []"
  shows "redis_get (redis (handleDisconnect c s)) (userKey (sock_userId client)) = None"
  using assms by (simp add: handleDisconnect_def redis_get_def redis_del_def Let_def map_of_delete_same)

theorem disconnect_removes_presence_entry_witness:
  "redis_get (redis (handleDisconnect ''c1'' (handleConnection ''c2'' (Some ''alice'')
       (handleConnection ''c1'' (Some ''alice'') init_state)))) (userKey ''alice'') = None"
proof -
  let ?s = "handleConnection ''c2'' (Some ''alice'') (handleConnection ''c1'' (Some ''alice'') init_state)"
  have a: "sockets ?s ''c1'' = Some \<lparr>sock_userId = ''alice'', sock_roomId = None, sock_rooms = []\<rparr>"
    by (simp add: handleConnection_def handleUnreadMessages_def unread_pattern_def store_defs init_state_def Let_def)
  show ?thesis using disconnect_removes_presence_entry [OF a] by simp
qed

text \<open>
  C1 (as the specification states it) fails: alice connects as socket c1, connects again
  as socket c2, and socket c1 disconnects. Before the disconnect the presence lookup
  gives c2; after it the entry is gone, although the stored socket id was not c1.
\<close>

theorem stale_disconnect_counterexample:
  "redis_get (redis (handleConnection ''c2'' (Some ''alice'')
       (handleConnection ''c1'' (Some ''alice'') init_state))) (userKey ''alice'') = Some ''c2''
   \<and> redis_get (redis (handleDisconnect ''c1'' (handleConnection ''c2'' (Some ''alice'')
       (handleConnection ''c1'' (Some ''alice'') init_state)))) (userKey ''alice'') \<noteq> Some ''c2''"
  by (simp add: handleConnection_def handleDisconnect_def handleUnreadMessages_def unread_pattern_def store_defs
      init_state_def Let_def)

section \<open>The wildcard cleanup\<close>

lemma map_of_delete_other: "k' \<noteq> k \<Longrightarrow> map_of (AList.delete k r) k' = map_of r k'"
  by (induction r) auto

lemma messageStatusKey_last:
  "last (messageStatusKey u r m) = (if m = [] then CHR '':'' else last m)"
  by (simp add: messageStatusKey_def)

lemma wildcard_key_differs:
  assumes "CHR ''*'' \<notin> set messageId"
  shows "messageStatusKey userId roomId ''*'' \<noteq> messageStatusKey userId' roomId' messageId"
proof
  assume eq: "messageStatusKey userId roomId ''*'' = messageStatusKey userId' roomId' messageId"
  have "last (messageStatusKey userId roomId ''*'') = CHR ''*''"
    by (simp add: messageStatusKey_last)
  with eq have l: "last (messageStatusKey userId' roomId' messageId) = CHR ''*''" by simp
  show False
  proof (cases "messageId = []")
    case True
    with l show False by (simp add: messageStatusKey_last)
  next
    case False
    with l have "CHR ''*'' \<in> set messageId"
      using last_in_set [of messageId] by (simp add: messageStatusKey_last)
    with assms show False by simp
  qed
qed

text \<open>
  C6. The cleanup step of join-room and leave-room deletes the one key that ends in a
  literal asterisk. That key differs from every pending-entry key whose message id holds
  no asterisk (the ids of stored messages are ObjectId strings), so each such entry, of
  whatever user and room, is still there with its value after the cleanup.
\<close>

theorem wildcard_cleanup_removes_nothing:
  assumes "CHR ''*'' \<notin> set messageId"
  shows "messageStatusKey userId roomId ''*'' \<noteq> messageStatusKey userId' roomId' messageId
       \<and> redis_get (redis (clear_messageStatus userId roomId s)) (messageStatusKey userId' roomId' messageId)
          = redis_get (redis s) (messageStatusKey userId' roomId' messageId)"
  using wildcard_key_differs [OF assms, of userId roomId userId' roomId']
  by (simp add: clear_messageStatus_def redis_get_def redis_del_def map_of_delete_other)

theorem wildcard_cleanup_removes_nothing_witness:
  "redis_get (redis (clear_messageStatus ''bob'' ex_room_id
       \<lparr>redis = [(messageStatusKey ''bob'' ex_room_id ex_msg_id, ''DELIVERED'')],
        sockets = Map.empty, chatRooms = [], messages = []\<rparr>))
     (messageStatusKey ''bob'' ex_room_id ex_msg_id) = Some ''DELIVERED''"
proof -
  have a: "CHR ''*'' \<notin> set ex_msg_id" by (simp add: ex_msg_id_def)
  show ?thesis
    using wildcard_cleanup_removes_nothing [OF a, of "''bob''" ex_room_id "''bob''" ex_room_id]
    by (simp add: redis_get_def)
qed

section \<open>Creating a room with one's own id\<close>

text \<open>
  C8 (as the source has it). When the creator's id is among \<open>participantIds\<close>, the
  request fails with a Conflict error and the state, so the room collection, is
  unchanged.
\<close>

theorem createRoom_self_conflict:
  assumes "userId \<in> set (dto_participantIds dto)"
  shows "createRoom dto userId newId s =
     (Inl (ConflictException ''You can't include your own user ID in the participants array''), s)"
  using assms by (simp add: createRoom_def)

theorem createRoom_self_conflict_witness:
  "createRoom (ex_dto\<lparr>dto_participantIds := [''bob'', ''alice'']\<rparr>) ''alice'' ex_room_id init_state =
     (Inl (ConflictException ''You can't include your own user ID in the participants array''), init_state)"
  using createRoom_self_conflict [of "''alice''" "ex_dto\<lparr>dto_participantIds := [''bob'', ''alice'']\<rparr>" ex_room_id init_state]
  by simp

text \<open>
  C8 (as the specification states it) fails: alice creates a room with participants bob
  and alice; the error is not the invalid-argument (bad request) kind.
\<close>

theorem createRoom_self_counterexample:
  "\<not> is_invalid_argument (fst (createRoom (ex_dto\<lparr>dto_participantIds := [''bob'', ''alice'']\<rparr>)
        ''alice'' ex_room_id init_state))"
  by (simp add: createRoom_def is_invalid_argument_def)

section \<open>A failed join\<close>

lemmas scenario_defs = ex_room_state_def ex_dto_def ex_room_id_def ex_msg_id_def createRoom_def
  service_createRoom_def empty_name_def init_state_def

lemmas gateway_defs = handleConnection_def handleDisconnect_def handleUnreadMessages_def
  handleJoinRoom_def handleLeaveRoom_def handleLoadMessages_def handleSendMessage_def
  clear_messageStatus_def getRoom_def isUserInRoom_def getMessagesForRoom_def saveMessage_def
  deliver_def recipients_of_def updateMessageStatus_def unread_pattern_def is_unread_for_def receiver_of_def third_part_def bump_count_def

text \<open>
  C3, at a failing input. carol is connected and in no room; she asks to join the room
  of alice and bob, of which she is not a participant. The join is refused, and her
  socket's current room is now that room.
\<close>

theorem failed_join_sets_current_room:
  "map_option sock_roomId (sockets (handleConnection ''c3'' (Some ''carol'') ex_room_state) ''c3'')
     = Some None
   \<and> fst (handleJoinRoom ''c3'' ex_room_id (handleConnection ''c3'' (Some ''carol'') ex_room_state))
     = Reply_fail ''You are not authorized to join this room''
   \<and> map_option sock_roomId
       (sockets (snd (handleJoinRoom ''c3'' ex_room_id
                       (handleConnection ''c3'' (Some ''carol'') ex_room_state))) ''c3'')
     = Some (Some ex_room_id)"
  by (simp add: scenario_defs gateway_defs store_defs Let_def)

text \<open>
  The same for every refused join of a connected socket: the requested room id has
  been stored as the socket's current room before the checks ran.
\<close>

lemma failed_join_keeps_requested_room:
  assumes "sockets s c = Some client" and "roomId \<noteq> []"
    and "fst (handleJoinRoom c roomId s) = Reply_fail msg"
  shows "map_option sock_roomId (sockets (snd (handleJoinRoom c roomId s)) c) = Some (Some roomId)"
  using assms by (auto simp: handleJoinRoom_def Let_def split: option.splits if_splits)

section \<open>Keys: splitting, matching\<close>

lemma split_on_not_Nil [simp]: "split_on c s \<noteq> []"
  by (induction s) (auto split: list.splits)

lemma split_on_not_Nil2 [simp]: "[] \<noteq> split_on c s"
  using split_on_not_Nil [of c s] by metis

lemma split_on_no_sep: "c \<notin> set a \<Longrightarrow> split_on c a = [a]"
  by (induction a) auto

lemma split_on_sep_append: "split_on c (a @ c # b) = split_on c a @ split_on c b"
  by (induction a) (auto split: list.splits)

lemma split_on_parts_no_sep: "x \<in> set (split_on c s) \<Longrightarrow> c \<notin> set x"
proof (induction s arbitrary: x)
  case Nil
  then show ?case by simp
next
  case (Cons y ys)
  show ?case
  proof (cases "y = c")
    case True
    with Cons show ?thesis by auto
  next
    case False
    obtain part parts where sp: "split_on c ys = part # parts"
      by (cases "split_on c ys") auto
    with Cons.prems False have "x = y # part \<or> x \<in> set parts" by simp
    then show ?thesis using Cons.IH sp False by auto
  qed
qed

lemma split_on_inj: "split_on c a = split_on c b \<Longrightarrow> a = b"
proof (induction a arbitrary: b)
  case Nil
  then show ?case by (cases b) (auto split: if_splits list.splits)
next
  case (Cons x xs)
  show ?case
  proof (cases b)
    case Nil
    with Cons.prems show ?thesis by (auto split: if_splits list.splits)
  next
    case (Cons y ys)
    obtain p ps where sx: "split_on c xs = p # ps" by (cases "split_on c xs") auto
    obtain q qs where sy: "split_on c ys = q # qs" by (cases "split_on c ys") auto
    from Cons.prems Cons sx sy have "x = y \<and> split_on c xs = split_on c ys"
      by (auto split: if_splits)
    with Cons.IH Cons show ?thesis by simp
  qed
qed

lemma split_messageStatusKey:
  assumes "CHR '':'' \<notin> set u" and "CHR '':'' \<notin> set r"
  shows "split_on CHR '':'' (messageStatusKey u r m) = ''messageStatus'' # u # r # split_on CHR '':'' m"
proof -
  have k: "messageStatusKey u r m = ''messageStatus'' @ CHR '':'' # (u @ CHR '':'' # (r @ CHR '':'' # m))"
    by (simp add: messageStatusKey_def)
  have t: "split_on CHR '':'' ''messageStatus'' = [''messageStatus'']"
    by (rule split_on_no_sep) simp
  have "split_on CHR '':'' (''messageStatus'' @ CHR '':'' # (u @ CHR '':'' # (r @ CHR '':'' # m)))
        = split_on CHR '':'' ''messageStatus'' @ split_on CHR '':'' (u @ CHR '':'' # (r @ CHR '':'' # m))"
    by (rule split_on_sep_append)
  also have "split_on CHR '':'' (u @ CHR '':'' # (r @ CHR '':'' # m))
             = split_on CHR '':'' u @ split_on CHR '':'' (r @ CHR '':'' # m)"
    by (rule split_on_sep_append)
  also have "split_on CHR '':'' (r @ CHR '':'' # m) = split_on CHR '':'' r @ split_on CHR '':'' m"
    by (rule split_on_sep_append)
  finally have "split_on CHR '':'' (messageStatusKey u r m)
        = [''messageStatus''] @ [u] @ [r] @ split_on CHR '':'' m"
    unfolding k t split_on_no_sep [OF assms(1)] split_on_no_sep [OF assms(2)] .
  then show ?thesis by simp
qed

lemma split_messageStatusKey4:
  assumes "CHR '':'' \<notin> set u" and "CHR '':'' \<notin> set r" and "CHR '':'' \<notin> set m"
  shows "split_on CHR '':'' (messageStatusKey u r m) = [''messageStatus'', u, r, m]"
  using assms by (simp add: split_messageStatusKey split_on_no_sep)

lemma split4_is_key:
  assumes "split_on CHR '':'' k = [t, p, r, m]"
  shows "k = t @ '':'' @ p @ '':'' @ r @ '':'' @ m"
proof -
  have ns: "CHR '':'' \<notin> set t" "CHR '':'' \<notin> set p" "CHR '':'' \<notin> set r" "CHR '':'' \<notin> set m"
    using split_on_parts_no_sep [of _ "CHR '':''" k] assms by simp_all
  have "split_on CHR '':'' (t @ CHR '':'' # p @ CHR '':'' # r @ CHR '':'' # m) = [t, p, r, m]"
    using ns by (simp add: split_on_sep_append split_on_no_sep)
  with assms have "split_on CHR '':'' k = split_on CHR '':'' (t @ CHR '':'' # p @ CHR '':'' # r @ CHR '':'' # m)"
    by simp
  then show ?thesis using split_on_inj by fastforce
qed

lemma takeWhile_sep: "c \<notin> set a \<Longrightarrow> takeWhile (\<lambda>z. z \<noteq> c) (a @ c # x) = a"
  by (induction a) auto

lemma sep_prefix_unique:
  assumes "a @ c # x = b @ c # y" and "c \<notin> set a" and "c \<notin> set b"
  shows "a = b \<and> x = y"
proof -
  have "takeWhile (\<lambda>z. z \<noteq> c) (a @ c # x) = a" using assms(2) by (rule takeWhile_sep)
  moreover have "takeWhile (\<lambda>z. z \<noteq> c) (b @ c # y) = b" using assms(3) by (rule takeWhile_sep)
  ultimately have "a = b" using assms(1) by simp
  with assms(1) show ?thesis by simp
qed

lemma split4_prefix_is_messageStatusKey:
  assumes "split_on CHR '':'' k = [t, p, r, m]" and "prefix ''messageStatus:'' k"
  shows "k = messageStatusKey p r m"
proof -
  have k: "k = t @ CHR '':'' # (p @ '':'' @ r @ '':'' @ m)" using split4_is_key [OF assms(1)] by simp
  have nt: "CHR '':'' \<notin> set t" using split_on_parts_no_sep [of t "CHR '':''" k] assms(1) by simp
  from assms(2) obtain z where z: "k = ''messageStatus'' @ CHR '':'' # z" by (auto simp: prefix_def)
  have "t = ''messageStatus''"
    using sep_prefix_unique [of t "CHR '':''" _ "''messageStatus''" z] k z nt by auto
  with k show ?thesis by (simp add: messageStatusKey_def)
qed

lemma wf_id_no_colon: "wf_id x \<Longrightarrow> CHR '':'' \<notin> set x"
  by (auto simp: wf_id_def)

lemma glob_match_star [simp]: "glob_match ''*'' s"
  by (induction s) auto

lemma glob_match_literal_star:
  "\<forall>c \<in> set p. c \<noteq> CHR ''*'' \<and> c \<noteq> CHR ''?'' \<Longrightarrow> glob_match (p @ ''*'') s = prefix p s"
proof (induction p arbitrary: s)
  case Nil
  then show ?case by simp
next
  case (Cons a p)
  then show ?case by (cases s) auto
qed

lemma unread_pattern_matches:
  assumes "wf_id u"
  shows "glob_match (unread_pattern u) k = prefix (user_prefix u) k"
proof -
  have "\<forall>c \<in> set (user_prefix u). c \<noteq> CHR ''*'' \<and> c \<noteq> CHR ''?''"
    using assms by (auto simp: wf_id_def user_prefix_def)
  from glob_match_literal_star [OF this, of k] show ?thesis
    by (simp add: user_prefix_def unread_pattern_def)
qed

lemma user_prefix_of_key:
  assumes "prefix (user_prefix u) (messageStatusKey p r m)"
    and "CHR '':'' \<notin> set u" and "CHR '':'' \<notin> set p"
  shows "u = p"
proof -
  from assms(1) obtain z where "messageStatusKey p r m = user_prefix u @ z"
    by (auto simp: prefix_def)
  then have "p @ CHR '':'' # (r @ '':'' @ m) = u @ CHR '':'' # z"
    by (simp add: messageStatusKey_def user_prefix_def)
  from sep_prefix_unique [OF this assms(3) assms(2)] show ?thesis by simp
qed

lemma messageStatusKey_inj:
  assumes "messageStatusKey p r m = messageStatusKey p' r' m'"
    and "CHR '':'' \<notin> set p" "CHR '':'' \<notin> set p'" "CHR '':'' \<notin> set r" "CHR '':'' \<notin> set r'"
  shows "p = p' \<and> r = r' \<and> m = m'"
proof -
  from assms(1) have e: "p @ CHR '':'' # (r @ CHR '':'' # m) = p' @ CHR '':'' # (r' @ CHR '':'' # m')"
    by (simp add: messageStatusKey_def)
  from sep_prefix_unique [OF e assms(2,3)] have 1: "p = p'" and 2: "r @ CHR '':'' # m = r' @ CHR '':'' # m'"
    by simp_all
  from sep_prefix_unique [OF 2 assms(4,5)] 1 show ?thesis by simp
qed

lemma messageStatusKey_prefix [simp]: "prefix ''messageStatus:'' (messageStatusKey p r m)"
  by (simp add: messageStatusKey_def prefix_def)

lemma userKey_not_pending [simp]: "\<not> prefix ''messageStatus:'' (userKey u)"
  by (simp add: userKey_def prefix_def)

lemma userKey_neq_messageStatusKey [simp]: "userKey u \<noteq> messageStatusKey p r m"
  by (simp add: userKey_def messageStatusKey_def)

section \<open>The stores: elementary facts\<close>

lemma redis_get_set: "redis_get (redis_set k v r) k' = (if k' = k then Some v else redis_get r k')"
  by (simp add: redis_get_def redis_set_def update_conv')

lemma redis_get_del: "redis_get (redis_del k r) k' = (if k' = k then None else redis_get r k')"
  by (simp add: redis_get_def redis_del_def delete_conv')

lemma redis_get_in_set: "redis_get r k = Some v \<Longrightarrow> (k, v) \<in> set r"
  by (simp add: redis_get_def map_of_SomeD)

lemma redis_keys_set: "set (redis_keys pat r) = {k \<in> fst ` set r. glob_match pat k}"
  by (auto simp: redis_keys_def)

lemma map_fst_update_present: "k \<in> fst ` set r \<Longrightarrow> map fst (AList.update k v r) = map fst r"
  by (induction r) auto

lemma msg_oid_set_receivers [simp]: "msg_oid (m\<lparr>receivers := rs\<rparr>) = msg_oid m"
  by simp

lemma map_msg_oid_updateOne [simp]:
  "map msg_oid (updateOne_status m u st ms) = map msg_oid ms"
  by (induction ms) auto

lemma map_room_id_updateOne [simp]:
  "map room_id (updateOne_status m u st ms) = map room_id ms"
  by (induction ms) auto

lemma length_updateOne [simp]: "length (updateOne_status m u st ms) = length ms"
  by (induction ms) auto

lemma find_set_first_status:
  "find (\<lambda>r. r_userId r = u') (set_first_status u st rs)
     = (if u' = u then map_option (\<lambda>r. r\<lparr>r_status := st\<rparr>) (find (\<lambda>r. r_userId r = u) rs)
        else find (\<lambda>r. r_userId r = u') rs)"
  by (induction rs) auto

lemma receiver_of_set_first:
  "receiver_of (m\<lparr>receivers := set_first_status u st (receivers m)\<rparr>) u'
     = (if u' = u then map_option (\<lambda>r. r\<lparr>r_status := st\<rparr>) (receiver_of m u) else receiver_of m u')"
  by (simp add: receiver_of_def find_set_first_status)

lemma receipt_Cons:
  "receipt (x # ms) m u = (if msg_oid x = m then map_option r_status (receiver_of x u) else receipt ms m u)"
  by (simp add: receipt_def getMessageById_def)

lemma receipt_updateOne:
  "receipt (updateOne_status m u st ms) m' u'
     = (if m' = m \<and> u' = u \<and> receipt ms m u \<noteq> None then Some st else receipt ms m' u')"
proof (induction ms)
  case Nil
  then show ?case by (simp add: receipt_def getMessageById_def)
next
  case (Cons x ms)
  show ?case
  proof (cases "msg_oid x = m \<and> receiver_of x u \<noteq> None")
    case True
    then show ?thesis
      by (auto simp: receipt_Cons receiver_of_set_first option.map_comp comp_def)
  next
    case False
    then show ?thesis using Cons.IH by (auto simp: receipt_Cons)
  qed
qed

lemma room_of_updateOne [simp]: "room_of (updateOne_status m u st ms) m' = room_of ms m'"
  by (induction ms) (auto simp: room_of_def getMessageById_def)

lemma room_of_in_set:
  assumes "x \<in> set ms" and "distinct (map msg_oid ms)"
  shows "room_of ms (msg_oid x) = Some (room_id x)"
  using assms by (induction ms) (auto simp: room_of_def getMessageById_def)

lemma room_of_Some_wf:
  assumes "room_of ms m = Some r"
  shows "m \<in> set (map msg_oid ms) \<and> r \<in> set (map room_id ms)"
proof -
  from assms obtain x where "find (\<lambda>x. msg_oid x = m) ms = Some x" and "room_id x = r"
    by (auto simp: room_of_def getMessageById_def)
  then show ?thesis by (auto simp: find_Some_iff)
qed

lemma receipt_append_fresh:
  assumes "msg_oid x \<notin> set (map msg_oid ms)"
  shows "receipt (ms @ [x]) m u
     = (if m = msg_oid x then map_option r_status (receiver_of x u) else receipt ms m u)"
  using assms by (induction ms) (auto simp: receipt_def getMessageById_def)

lemma room_of_append_fresh:
  assumes "msg_oid x \<notin> set (map msg_oid ms)"
  shows "room_of (ms @ [x]) m = (if m = msg_oid x then Some (room_id x) else room_of ms m)"
  using assms by (induction ms) (auto simp: room_of_def getMessageById_def)

section \<open>Consistency of the pending index\<close>

lemma receipts_mono_refl [simp]: "receipts_mono ms ms"
  by (simp add: receipts_mono_def)

lemma receipts_mono_trans:
  "receipts_mono a b \<Longrightarrow> receipts_mono b c \<Longrightarrow> receipts_mono a c"
  unfolding receipts_mono_def by (meson le_trans)

lemma rank_le_SEEN [simp]: "rank st \<le> 2"
  by (cases st) auto

lemma rank_le_DELIVERED: "st \<noteq> SEEN \<Longrightarrow> rank st \<le> Suc 0"
  by (cases st) auto

lemma receipts_mono_updateOne:
  assumes "st = SEEN \<or> (st = DELIVERED \<and> receipt ms m u \<noteq> Some SEEN)"
  shows "receipts_mono ms (updateOne_status m u st ms)"
  using assms by (auto simp: receipts_mono_def receipt_updateOne rank_le_DELIVERED)

lemma ids_ok_cong:
  assumes "chatRooms s' = chatRooms s" and "sockets s' = sockets s"
    and "map msg_oid (messages s') = map msg_oid (messages s)"
    and "map room_id (messages s') = map room_id (messages s)"
  shows "ids_ok s' = ids_ok s"
  using assms by (simp add: ids_ok_def)

lemma pending_ok_alt:
  "pending_ok s = (\<forall>k v. redis_get (redis s) k = Some v \<longrightarrow> prefix ''messageStatus:'' k \<longrightarrow>
      pending_entry_ok (messages s) k v)"
  unfolding pending_ok_def by (auto dest: redis_get_in_set)

lemma pending_entry_okD:
  assumes "pending_entry_ok ms k v" and "prefix ''messageStatus:'' k"
  shows "\<exists>p r m. k = messageStatusKey p r m \<and> wf_id p \<and> wf_id r \<and> wf_id m
           \<and> split_on CHR '':'' k = [''messageStatus'', p, r, m]
           \<and> ((v = status_str SENT \<or> v = status_str DELIVERED) \<longrightarrow>
                 receipt ms m p \<noteq> Some SEEN \<and> room_of ms m = Some r)"
proof -
  from assms(1) obtain t p r m where sp: "split_on CHR '':'' k = [t, p, r, m]"
    and wf: "wf_id p" "wf_id r" "wf_id m"
    and st: "(v = status_str SENT \<or> v = status_str DELIVERED) \<longrightarrow>
                 receipt ms m p \<noteq> Some SEEN \<and> room_of ms m = Some r"
    unfolding pending_entry_ok_def by (auto split: list.splits)
  have k: "k = messageStatusKey p r m" using split4_prefix_is_messageStatusKey [OF sp assms(2)] .
  have "split_on CHR '':'' k = [''messageStatus'', p, r, m]"
    unfolding k using wf by (simp add: split_messageStatusKey4 wf_id_no_colon)
  with k wf st show ?thesis by blast
qed

lemma pending_entry_okI:
  assumes "wf_id p" "wf_id r" "wf_id m"
    and "(v = status_str SENT \<or> v = status_str DELIVERED) \<longrightarrow>
           receipt ms m p \<noteq> Some SEEN \<and> room_of ms m = Some r"
  shows "pending_entry_ok ms (messageStatusKey p r m) v"
  using assms by (simp add: pending_entry_ok_def split_messageStatusKey4 wf_id_no_colon)

lemma pending_entry_ok_update_nonseen:
  assumes "pending_entry_ok ms k v" and "st \<noteq> SEEN"
  shows "pending_entry_ok (updateOne_status m u st ms) k v"
  using assms unfolding pending_entry_ok_def
  by (auto simp: receipt_updateOne split: list.splits)

lemma pending_entry_ok_update_other:
  assumes "pending_entry_ok ms k v" and "prefix ''messageStatus:'' k"
    and "\<And>r. k \<noteq> messageStatusKey u r m"
  shows "pending_entry_ok (updateOne_status m u st ms) k v"
proof -
  from pending_entry_okD [OF assms(1,2)] obtain p r m' where
    k: "k = messageStatusKey p r m'" and wf: "wf_id p" "wf_id r" "wf_id m'"
    and st: "(v = status_str SENT \<or> v = status_str DELIVERED) \<longrightarrow>
                 receipt ms m' p \<noteq> Some SEEN \<and> room_of ms m' = Some r"
    by blast
  from assms(3) k have "\<not> (m' = m \<and> p = u)" by auto
  then have "receipt (updateOne_status m u st ms) m' p = receipt ms m' p"
    by (auto simp: receipt_updateOne)
  with st wf show ?thesis unfolding k by (intro pending_entry_okI) auto
qed

lemma last_split_key:
  assumes "split_on CHR '':'' k = [t, p, r, m]"
  shows "last (split_on CHR '':'' k) = m" and "third_part (split_on CHR '':'' k) = Some r"
  using assms by (simp_all add: third_part_def)

lemma unread_prefix_pending:
  "prefix (user_prefix u) k \<Longrightarrow> prefix ''messageStatus:'' k"
  by (auto simp: prefix_def user_prefix_def)

lemma unread_step:
  assumes ok: "pending_ok s" and u: "wf_id u"
    and pk: "prefix (user_prefix u) k"
    and v: "redis_get (redis s) k = Some v" "v = status_str SENT \<or> v = status_str DELIVERED"
  defines "s2 \<equiv> updateMessageStatus (last (split_on CHR '':'' k)) u DELIVERED
                  (s\<lparr>redis := redis_set k (status_str DELIVERED) (redis s)\<rparr>)"
  shows "pending_ok s2" and "receipts_mono (messages s) (messages s2)"
proof -
  have pk': "prefix ''messageStatus:'' k" using pk by (rule unread_prefix_pending)
  from ok v(1) pk' have "pending_entry_ok (messages s) k v" by (simp add: pending_ok_alt)
  from pending_entry_okD [OF this pk'] v(2) obtain p r m where
    k: "k = messageStatusKey p r m" and wf: "wf_id p" "wf_id r" "wf_id m"
    and sp: "split_on CHR '':'' k = [''messageStatus'', p, r, m]"
    and ns: "receipt (messages s) m p \<noteq> Some SEEN" and rm: "room_of (messages s) m = Some r"
    by blast
  have pu: "p = u"
    using user_prefix_of_key [of u p r m] pk k u wf(1) by (simp add: wf_id_no_colon)
  have s2: "s2 = s\<lparr>redis := redis_set k (status_str DELIVERED) (redis s),
                   messages := updateOne_status m u DELIVERED (messages s)\<rparr>"
    unfolding s2_def by (simp add: updateMessageStatus_def last_split_key(1) [OF sp])
  show "receipts_mono (messages s) (messages s2)"
    unfolding s2 using ns pu by (simp add: receipts_mono_updateOne)
  show "pending_ok s2"
    unfolding pending_ok_alt
  proof (intro allI impI)
    fix k' v'
    assume g: "redis_get (redis s2) k' = Some v'" and p': "prefix ''messageStatus:'' k'"
    show "pending_entry_ok (messages s2) k' v'"
    proof (cases "k' = k")
      case True
      with g have v': "v' = status_str DELIVERED" by (simp add: s2 redis_get_set)
      have "receipt (updateOne_status m u DELIVERED (messages s)) m p \<noteq> Some SEEN"
        using ns pu by (simp add: receipt_updateOne)
      then show ?thesis
        unfolding True k s2 using wf rm by (intro pending_entry_okI) (simp_all add: v')
    next
      case False
      with g have "redis_get (redis s) k' = Some v'" by (simp add: s2 redis_get_set)
      with ok p' have "pending_entry_ok (messages s) k' v'" by (simp add: pending_ok_alt)
      then show ?thesis unfolding s2 by (simp add: pending_entry_ok_update_nonseen)
    qed
  qed
qed

lemma unread_loop_frame:
  "sockets (snd (unread_loop u keys acc s)) = sockets s
   \<and> chatRooms (snd (unread_loop u keys acc s)) = chatRooms s
   \<and> map msg_oid (messages (snd (unread_loop u keys acc s))) = map msg_oid (messages s)
   \<and> map room_id (messages (snd (unread_loop u keys acc s))) = map room_id (messages s)"
  by (induction keys arbitrary: acc s) (simp_all add: Let_def updateMessageStatus_def)

lemma unread_loop_consistent:
  assumes "pending_ok s" and "wf_id u"
    and "\<forall>k \<in> set keys. prefix (user_prefix u) k"
  shows "pending_ok (snd (unread_loop u keys acc s))
       \<and> receipts_mono (messages s) (messages (snd (unread_loop u keys acc s)))"
  using assms
proof (induction keys arbitrary: acc s)
  case Nil
  then show ?case by simp
next
  case (Cons k keys)
  show ?case
  proof (cases "redis_get (redis s) k = Some (status_str SENT)
                \<or> redis_get (redis s) k = Some (status_str DELIVERED)")
    case False
    then show ?thesis using Cons by (simp add: Let_def)
  next
    case True
    then obtain v where v: "redis_get (redis s) k = Some v"
       "v = status_str SENT \<or> v = status_str DELIVERED" by auto
    let ?s2 = "updateMessageStatus (last (split_on CHR '':'' k)) u DELIVERED
                  (s\<lparr>redis := redis_set k (status_str DELIVERED) (redis s)\<rparr>)"
    have pk: "prefix (user_prefix u) k" using Cons.prems(3) by simp
    have a: "pending_ok ?s2" and b: "receipts_mono (messages s) (messages ?s2)"
      using unread_step [OF Cons.prems(1,2) pk v] by simp_all
    have rest: "\<forall>k \<in> set keys. prefix (user_prefix u) k"
      using Cons.prems(3) by simp
    from Cons.IH [OF a Cons.prems(2) rest]
    have "\<And>acc'. pending_ok (snd (unread_loop u keys acc' ?s2))
       \<and> receipts_mono (messages ?s2) (messages (snd (unread_loop u keys acc' ?s2)))" .
    then show ?thesis using True b
      by (auto simp: Let_def intro: receipts_mono_trans)
  qed
qed

section \<open>The unread sweep and the load loop keep the index consistent\<close>

lemma unread_loop_redis_other:
  "k' \<notin> set keys \<Longrightarrow> redis_get (redis (snd (unread_loop u keys acc s))) k' = redis_get (redis s) k'"
  by (induction keys arbitrary: acc s) (auto simp: Let_def updateMessageStatus_def redis_get_set)

lemma unread_loop_no_new_SEEN:
  "receipt (messages (snd (unread_loop u keys acc s))) m q = Some SEEN
     \<Longrightarrow> receipt (messages s) m q = Some SEEN"
proof (induction keys arbitrary: acc s)
  case Nil
  then show ?case by simp
next
  case (Cons k keys)
  show ?case
  proof (cases "redis_get (redis s) k = Some (status_str SENT)
                \<or> redis_get (redis s) k = Some (status_str DELIVERED)")
    case False
    then show ?thesis using Cons by (simp add: Let_def)
  next
    case True
    let ?s2 = "updateMessageStatus (last (split_on CHR '':'' k)) u DELIVERED
                  (s\<lparr>redis := redis_set k (status_str DELIVERED) (redis s)\<rparr>)"
    from Cons.prems True have "\<exists>acc'. receipt (messages (snd (unread_loop u keys acc' ?s2))) m q = Some SEEN"
      by (auto simp: Let_def)
    then have "receipt (messages ?s2) m q = Some SEEN" using Cons.IH by blast
    then show ?thesis
      by (auto simp: updateMessageStatus_def receipt_updateOne split: if_splits)
  qed
qed


lemma unread_loop_room_of:
  "room_of (messages (snd (unread_loop u keys acc s))) m = room_of (messages s) m"
  by (induction keys arbitrary: acc s) (auto simp: Let_def updateMessageStatus_def)

lemma handleUnread_frame:
  "sockets (snd (handleUnreadMessages client s)) = sockets s"
  "chatRooms (snd (handleUnreadMessages client s)) = chatRooms s"
  "map msg_oid (messages (snd (handleUnreadMessages client s))) = map msg_oid (messages s)"
  "map room_id (messages (snd (handleUnreadMessages client s))) = map room_id (messages s)"
  by (simp_all add: handleUnreadMessages_def Let_def unread_loop_frame)

lemma handleUnread_ids_ok: "ids_ok (snd (handleUnreadMessages client s)) = ids_ok s"
  by (rule ids_ok_cong) (simp_all add: handleUnread_frame)

lemma handleUnread_userKey:
  "redis_get (redis (snd (handleUnreadMessages client s))) (userKey q) = redis_get (redis s) (userKey q)"
proof -
  have "userKey q \<notin> set (redis_keys (unread_pattern (sock_userId client)) (redis s))"
  proof
    assume "userKey q \<in> set (redis_keys (unread_pattern (sock_userId client)) (redis s))"
    then have "glob_match (unread_pattern (sock_userId client)) (userKey q)"
      by (simp add: redis_keys_set)
    then show False by (simp add: userKey_def unread_pattern_def)
  qed
  then show ?thesis by (simp add: handleUnreadMessages_def Let_def unread_loop_redis_other)
qed

lemma handleUnread_joined: "joined (snd (handleUnreadMessages client s)) r q = joined s r q"
  by (simp add: joined_def handleUnread_userKey handleUnread_frame split: option.splits)

lemma handleUnread_consistent:
  assumes "pending_ok s" and "wf_id (sock_userId client)"
  shows "pending_ok (snd (handleUnreadMessages client s))"
    and "receipts_mono (messages s) (messages (snd (handleUnreadMessages client s)))"
proof -
  let ?u = "sock_userId client"
  have "\<forall>k \<in> set (redis_keys (unread_pattern ?u) (redis s)).
          prefix (user_prefix ?u) k"
    using assms(2) by (simp add: redis_keys_set unread_pattern_matches)
  from unread_loop_consistent [OF assms(1,2) this]
  show "pending_ok (snd (handleUnreadMessages client s))"
    and "receipts_mono (messages s) (messages (snd (handleUnreadMessages client s)))"
    by (simp_all add: handleUnreadMessages_def Let_def)
qed

lemma pending_entry_ok_update_seen:
  assumes "pending_entry_ok ms k v" and "prefix ''messageStatus:'' k"
    and "k \<noteq> messageStatusKey u r m" and "room_of ms m = Some r"
  shows "pending_entry_ok (updateOne_status m u st ms) k v"
proof -
  from pending_entry_okD [OF assms(1,2)] obtain p r' m' where
    k: "k = messageStatusKey p r' m'" and wf: "wf_id p" "wf_id r'" "wf_id m'"
    and st: "(v = status_str SENT \<or> v = status_str DELIVERED) \<longrightarrow>
                 receipt ms m' p \<noteq> Some SEEN \<and> room_of ms m' = Some r'"
    by blast
  show ?thesis
  proof (cases "v = status_str SENT \<or> v = status_str DELIVERED")
    case False
    then show ?thesis unfolding k using wf by (intro pending_entry_okI) auto
  next
    case True
    with st have a: "receipt ms m' p \<noteq> Some SEEN" and b: "room_of ms m' = Some r'" by auto
    have "\<not> (m' = m \<and> p = u)" using assms(3,4) b k by auto
    then have "receipt (updateOne_status m u st ms) m' p = receipt ms m' p"
      by (auto simp: receipt_updateOne)
    with a b wf show ?thesis unfolding k by (intro pending_entry_okI) auto
  qed
qed

lemma pending_ok_del:
  assumes "pending_ok s"
  shows "pending_ok (s\<lparr>redis := redis_del k (redis s)\<rparr>)"
  using assms unfolding pending_ok_alt by (auto simp: redis_get_del split: if_splits)

lemma pending_ok_set_other:
  assumes "pending_ok s" and "\<not> prefix ''messageStatus:'' k"
  shows "pending_ok (s\<lparr>redis := redis_set k v (redis s)\<rparr>)"
  using assms unfolding pending_ok_alt by (auto simp: redis_get_set split: if_splits)

lemma load_step:
  fixes u :: string
  assumes ok: "pending_ok s" and rm: "room_of (messages s) m = Some r"
  defines "s2 \<equiv> (updateMessageStatus m u SEEN s)
                   \<lparr>redis := redis_del (messageStatusKey u r m) (redis (updateMessageStatus m u SEEN s))\<rparr>"
  shows "pending_ok s2" and "receipts_mono (messages s) (messages s2)"
proof -
  have s2: "s2 = s\<lparr>messages := updateOne_status m u SEEN (messages s),
                   redis := redis_del (messageStatusKey u r m) (redis s)\<rparr>"
    unfolding s2_def by (simp add: updateMessageStatus_def)
  show "receipts_mono (messages s) (messages s2)"
    unfolding s2 by (simp add: receipts_mono_updateOne)
  show "pending_ok s2"
    unfolding pending_ok_alt
  proof (intro allI impI)
    fix k' v'
    assume g: "redis_get (redis s2) k' = Some v'" and p': "prefix ''messageStatus:'' k'"
    from g have ne: "k' \<noteq> messageStatusKey u r m" and g': "redis_get (redis s) k' = Some v'"
      by (auto simp: s2 redis_get_del split: if_splits)
    from ok g' p' have "pending_entry_ok (messages s) k' v'" by (simp add: pending_ok_alt)
    from pending_entry_ok_update_seen [OF this p' ne rm]
    show "pending_entry_ok (messages s2) k' v'" by (simp add: s2)
  qed
qed

lemma load_loop_frame:
  "sockets (load_loop u r msgs s) = sockets s
   \<and> chatRooms (load_loop u r msgs s) = chatRooms s
   \<and> map msg_oid (messages (load_loop u r msgs s)) = map msg_oid (messages s)
   \<and> map room_id (messages (load_loop u r msgs s)) = map room_id (messages s)"
  by (induction msgs arbitrary: s) (simp_all add: Let_def updateMessageStatus_def)

lemma load_loop_consistent:
  assumes "pending_ok s" and "\<forall>x \<in> set msgs. room_of (messages s) (msg_oid x) = Some r"
  shows "pending_ok (load_loop u r msgs s)
       \<and> receipts_mono (messages s) (messages (load_loop u r msgs s))"
  using assms
proof (induction msgs arbitrary: s)
  case Nil
  then show ?case by simp
next
  case (Cons x msgs)
  let ?s2 = "(updateMessageStatus (msg_oid x) u SEEN s)
                   \<lparr>redis := redis_del (messageStatusKey u r (msg_oid x))
                              (redis (updateMessageStatus (msg_oid x) u SEEN s))\<rparr>"
  have rm: "room_of (messages s) (msg_oid x) = Some r" using Cons.prems(2) by simp
  have a: "pending_ok ?s2" and b: "receipts_mono (messages s) (messages ?s2)"
    using load_step [OF Cons.prems(1) rm, of u] by simp_all
  have "\<forall>y \<in> set msgs. room_of (messages ?s2) (msg_oid y) = Some r"
    using Cons.prems(2) by (simp add: updateMessageStatus_def)
  from Cons.IH [OF a this] b show ?case
    by (auto simp: Let_def intro: receipts_mono_trans)
qed

lemma getMessagesForRoom_set:
  "set (getMessagesForRoom s r) = {m \<in> set (messages s). room_id m = r}"
  by (auto simp: getMessagesForRoom_def)

lemma handleLoad_frame:
  "sockets (snd (handleLoadMessages c s)) = sockets s"
  "chatRooms (snd (handleLoadMessages c s)) = chatRooms s"
  "map msg_oid (messages (snd (handleLoadMessages c s))) = map msg_oid (messages s)"
  "map room_id (messages (snd (handleLoadMessages c s))) = map room_id (messages s)"
  by (simp_all add: handleLoadMessages_def Let_def load_loop_frame split: option.splits)

lemma handleLoad_ids_ok: "ids_ok (snd (handleLoadMessages c s)) = ids_ok s"
  by (rule ids_ok_cong) (simp_all add: handleLoad_frame)

lemma handleLoad_consistent:
  assumes "pending_ok s" and "ids_ok s"
  shows "pending_ok (snd (handleLoadMessages c s))
       \<and> receipts_mono (messages s) (messages (snd (handleLoadMessages c s)))"
proof -
  have d: "distinct (map msg_oid (messages s))" using assms(2) by (simp add: ids_ok_def)
  have "\<And>u r. pending_ok (load_loop u r (filter (is_unread_for u) (getMessagesForRoom s r)) s)
       \<and> receipts_mono (messages s)
            (messages (load_loop u r (filter (is_unread_for u) (getMessagesForRoom s r)) s))"
  proof -
    fix u r
    have "\<forall>x \<in> set (filter (is_unread_for u) (getMessagesForRoom s r)).
             room_of (messages s) (msg_oid x) = Some r"
      using room_of_in_set [OF _ d] by (auto simp: getMessagesForRoom_set)
    from load_loop_consistent [OF assms(1) this] show "?thesis u r" .
  qed
  then show ?thesis using assms(1)
    by (auto simp: handleLoadMessages_def Let_def split: option.splits)
qed

section \<open>The send loop keeps the index consistent\<close>

lemma deliver_frame:
  "sockets (deliver r m p s) = sockets s"
  "chatRooms (deliver r m p s) = chatRooms s"
  "map msg_oid (messages (deliver r m p s)) = map msg_oid (messages s)"
  "map room_id (messages (deliver r m p s)) = map room_id (messages s)"
  by (simp_all add: deliver_def Let_def handleUnread_frame updateMessageStatus_def split: option.splits)

lemma deliver_ids_ok: "ids_ok (deliver r m p s) = ids_ok s"
  by (rule ids_ok_cong) (simp_all add: deliver_frame)

lemma deliver_userKey:
  "redis_get (redis (deliver r m p s)) (userKey q) = redis_get (redis s) (userKey q)"
  by (simp add: deliver_def Let_def handleUnread_userKey updateMessageStatus_def redis_get_set
      split: option.splits)

lemma deliver_joined: "joined (deliver r m p s) r' q = joined s r' q"
  by (simp add: joined_def deliver_userKey deliver_frame split: option.splits)

lemma deliver_room_of: "room_of (messages (deliver r m p s)) m' = room_of (messages s) m'"
  by (simp add: deliver_def Let_def handleUnreadMessages_def unread_loop_room_of
      updateMessageStatus_def split: option.splits)

lemma pending_ok_set_key:
  assumes "pending_ok s" and "pending_entry_ok (messages s) k v"
  shows "pending_ok (s\<lparr>redis := redis_set k v (redis s)\<rparr>)"
  using assms unfolding pending_ok_alt by (auto simp: redis_get_set split: if_splits)

lemma deliver_consistent:
  assumes ok: "pending_ok s" and ids: "ids_ok s"
    and wf: "wf_id p" "wf_id r" "wf_id m"
    and rm: "room_of (messages s) m = Some r"
    and seen: "\<forall>q. receipt (messages s) m q = Some SEEN \<longrightarrow> joined s r q"
  shows "pending_ok (deliver r m p s)"
    and "receipts_mono (messages s) (messages (deliver r m p s))"
    and "\<forall>q. receipt (messages (deliver r m p s)) m q = Some SEEN \<longrightarrow> joined s r q"
proof -
  let ?K = "messageStatusKey p r m"
  let ?c = "redis_get (redis s) (userKey p)"
  have goal: "pending_ok (deliver r m p s)
     \<and> receipts_mono (messages s) (messages (deliver r m p s))
     \<and> (\<forall>q. receipt (messages (deliver r m p s)) m q = Some SEEN \<longrightarrow> joined s r q)"
  proof (cases "?c \<noteq> None \<and> ?c \<noteq> Some []")
    case False
    then have nj: "\<not> joined s r p" by (auto simp: joined_def split: option.splits)
    then have "receipt (messages s) m p \<noteq> Some SEEN" using seen by blast
    then have "pending_entry_ok (messages s) ?K (status_str SENT)"
      using wf rm by (intro pending_entry_okI) auto
    from pending_ok_set_key [OF ok this] False seen show ?thesis
      by (auto simp: deliver_def Let_def)
  next
    case True
    then obtain c where c: "?c = Some c" "c \<noteq> []" by auto
    show ?thesis
    proof (cases "sockets s c")
      case None
      then show ?thesis using c ok seen by (simp add: deliver_def Let_def)
    next
      case (Some socket)
      show ?thesis
      proof (cases "r \<in> set (sock_rooms socket)")
        case True
        let ?s1 = "s\<lparr>redis := redis_set ?K (status_str SEEN) (redis s)\<rparr>"
        have d: "deliver r m p s = updateMessageStatus m p SEEN ?s1"
          using c Some True by (simp add: deliver_def Let_def)
        have j: "joined s r p" using c Some True by (simp add: joined_def)
        have "pending_ok (updateMessageStatus m p SEEN ?s1)"
          unfolding pending_ok_alt
        proof (intro allI impI)
          fix k' v'
          assume g: "redis_get (redis (updateMessageStatus m p SEEN ?s1)) k' = Some v'"
            and p': "prefix ''messageStatus:'' k'"
          show "pending_entry_ok (messages (updateMessageStatus m p SEEN ?s1)) k' v'"
          proof (cases "k' = ?K")
            case True
            with g have "v' = status_str SEEN"
              by (simp add: updateMessageStatus_def redis_get_set)
            then show ?thesis unfolding True using wf
              by (intro pending_entry_okI) auto
          next
            case False
            with g have "redis_get (redis s) k' = Some v'"
              by (simp add: updateMessageStatus_def redis_get_set)
            with ok p' have "pending_entry_ok (messages s) k' v'" by (simp add: pending_ok_alt)
            from pending_entry_ok_update_seen [OF this p' False rm]
            show ?thesis by (simp add: updateMessageStatus_def)
          qed
        qed
        moreover have "receipts_mono (messages s) (messages (updateMessageStatus m p SEEN ?s1))"
          by (simp add: updateMessageStatus_def receipts_mono_updateOne)
        moreover have "\<forall>q. receipt (messages (updateMessageStatus m p SEEN ?s1)) m q = Some SEEN
                          \<longrightarrow> joined s r q"
          using seen j by (auto simp: updateMessageStatus_def receipt_updateOne split: if_splits)
        ultimately show ?thesis unfolding d by blast
      next
        case False
        let ?s1 = "s\<lparr>redis := redis_set ?K (status_str DELIVERED) (redis s)\<rparr>"
        let ?s2 = "updateMessageStatus m p DELIVERED ?s1"
        have d: "deliver r m p s = snd (handleUnreadMessages socket ?s2)"
          using c Some False by (simp add: deliver_def Let_def)
        have nj: "\<not> joined s r p" using c Some False by (simp add: joined_def)
        then have ns: "receipt (messages s) m p \<noteq> Some SEEN" using seen by blast
        have wfu: "wf_id (sock_userId socket)"
          using ids Some by (auto simp: ids_ok_def ran_def)
        have ok2: "pending_ok ?s2"
          unfolding pending_ok_alt
        proof (intro allI impI)
          fix k' v'
          assume g: "redis_get (redis ?s2) k' = Some v'" and p': "prefix ''messageStatus:'' k'"
          show "pending_entry_ok (messages ?s2) k' v'"
          proof (cases "k' = ?K")
            case True
            have "receipt (updateOne_status m p DELIVERED (messages s)) m p \<noteq> Some SEEN"
              by (simp add: receipt_updateOne)
            then show ?thesis unfolding True using wf rm
              by (intro pending_entry_okI) (auto simp: updateMessageStatus_def)
          next
            case False
            with g have "redis_get (redis s) k' = Some v'"
              by (simp add: updateMessageStatus_def redis_get_set)
            with ok p' have "pending_entry_ok (messages s) k' v'" by (simp add: pending_ok_alt)
            then show ?thesis
              by (simp add: updateMessageStatus_def pending_entry_ok_update_nonseen)
          qed
        qed
        have m2: "receipts_mono (messages s) (messages ?s2)"
          using ns by (simp add: updateMessageStatus_def receipts_mono_updateOne)
        have seen2: "\<forall>q. receipt (messages ?s2) m q = Some SEEN \<longrightarrow> joined s r q"
          using seen by (auto simp: updateMessageStatus_def receipt_updateOne split: if_splits)
        from handleUnread_consistent [OF ok2 wfu]
        have "pending_ok (snd (handleUnreadMessages socket ?s2))"
          and "receipts_mono (messages ?s2) (messages (snd (handleUnreadMessages socket ?s2)))"
          by simp_all
        moreover have "\<forall>q. receipt (messages (snd (handleUnreadMessages socket ?s2))) m q = Some SEEN
                          \<longrightarrow> joined s r q"
          using seen2 unread_loop_no_new_SEEN
          by (fastforce simp: handleUnreadMessages_def Let_def)
        ultimately show ?thesis unfolding d using m2 by (blast intro: receipts_mono_trans)
      qed
    qed
  qed
  from goal show "pending_ok (deliver r m p s)"
    and "receipts_mono (messages s) (messages (deliver r m p s))"
    and "\<forall>q. receipt (messages (deliver r m p s)) m q = Some SEEN \<longrightarrow> joined s r q"
    by simp_all
qed

lemma deliver_loop_frame:
  "sockets (deliver_loop r m ps s) = sockets s
   \<and> chatRooms (deliver_loop r m ps s) = chatRooms s
   \<and> map msg_oid (messages (deliver_loop r m ps s)) = map msg_oid (messages s)
   \<and> map room_id (messages (deliver_loop r m ps s)) = map room_id (messages s)"
  by (induction ps arbitrary: s) (simp_all add: deliver_frame)

lemma deliver_loop_consistent:
  assumes "pending_ok s" and "ids_ok s"
    and "\<forall>p \<in> set ps. wf_id p" and "wf_id r" and "wf_id m"
    and "room_of (messages s) m = Some r"
    and "\<forall>q. receipt (messages s) m q = Some SEEN \<longrightarrow> joined s r q"
  shows "pending_ok (deliver_loop r m ps s)
       \<and> receipts_mono (messages s) (messages (deliver_loop r m ps s))"
  using assms
proof (induction ps arbitrary: s)
  case Nil
  then show ?case by simp
next
  case (Cons p ps)
  have wfp: "wf_id p" using Cons.prems(3) by simp
  note d = deliver_consistent [OF Cons.prems(1,2) wfp Cons.prems(4,5,6,7)]
  have a: "ids_ok (deliver r m p s)" using Cons.prems(2) by (simp add: deliver_ids_ok)
  have b: "\<forall>p \<in> set ps. wf_id p" using Cons.prems(3) by simp
  have c: "room_of (messages (deliver r m p s)) m = Some r"
    using Cons.prems(6) by (simp add: deliver_room_of)
  have e: "\<forall>q. receipt (messages (deliver r m p s)) m q = Some SEEN \<longrightarrow> joined (deliver r m p s) r q"
    using d(3) by (simp add: deliver_joined)
  from Cons.IH [OF d(1) a b Cons.prems(4,5) c e] d(2) show ?case
    by (auto intro: receipts_mono_trans)
qed

section \<open>Every operation keeps the state consistent and the receipts monotone\<close>

lemma ids_ok_sockets_upd:
  assumes "ids_ok s" and "wf_id (sock_userId client)"
  shows "ids_ok (s\<lparr>sockets := (sockets s)(c \<mapsto> client)\<rparr>)"
  using assms by (auto simp: ids_ok_def ran_def split: if_splits)

lemma ids_ok_sockets_del:
  assumes "ids_ok s"
  shows "ids_ok (s\<lparr>sockets := (sockets s)(c := None)\<rparr>)"
  using assms by (auto simp: ids_ok_def ran_def split: if_splits)

lemma ids_ok_redis [simp]: "ids_ok (s\<lparr>redis := r\<rparr>) = ids_ok s"
  by (simp add: ids_ok_def)

lemma pending_ok_sockets [simp]: "pending_ok (s\<lparr>sockets := x\<rparr>) = pending_ok s"
  by (simp add: pending_ok_def)

lemma pending_ok_chatRooms [simp]: "pending_ok (s\<lparr>chatRooms := x\<rparr>) = pending_ok s"
  by (simp add: pending_ok_def)

lemma pending_ok_del':
  assumes "pending_ok s" and "redis s' = redis_del k (redis s)" and "messages s' = messages s"
  shows "pending_ok s'"
  using assms unfolding pending_ok_alt by (auto simp: redis_get_del split: if_splits)

lemma pending_ok_set_other':
  assumes "pending_ok s" and "\<not> prefix ''messageStatus:'' k"
    and "redis s' = redis_set k v (redis s)" and "messages s' = messages s"
  shows "pending_ok s'"
  using assms unfolding pending_ok_alt by (auto simp: redis_get_set split: if_splits)

lemma ids_ok_socket_wf: "ids_ok s \<Longrightarrow> sockets s c = Some client \<Longrightarrow> wf_id (sock_userId client)"
  by (auto simp: ids_ok_def ran_def)

lemma getRoom_SomeD:
  "getRoom s roomId = Some room \<Longrightarrow> room \<in> set (chatRooms s) \<and> room_oid room = roomId"
  by (auto simp: getRoom_def find_Some_iff)

lemma receiver_of_fresh_status:
  "map_option r_status (find (\<lambda>r. r_userId r = q)
      (map (\<lambda>userId. \<lparr>r_userId = userId, r_status = SENT, r_is_deleted = False\<rparr>) ps))
   = (if q \<in> set ps then Some SENT else None)"
  by (induction ps) auto

lemma receipt_Some_mem: "receipt ms m u = Some st \<Longrightarrow> m \<in> set (map msg_oid ms)"
  by (induction ms) (auto simp: receipt_Cons receipt_def getMessageById_def split: if_splits)

lemma send_core:
  assumes con: "consistent s" and wfn: "wf_id newId"
    and room: "getRoom s roomId = Some room"
    and rec: "recips = recipients_of room senderId"
    and save: "saveMessage newId now roomId senderId body recips s = Some (saved, s1)"
  shows "consistent (deliver_loop roomId (msg_oid saved) recips s1)
       \<and> receipts_mono (messages s) (messages (deliver_loop roomId (msg_oid saved) recips s1))"
proof -
  from con have ids: "ids_ok s" and ok: "pending_ok s" by (simp_all add: consistent_def)
  from save have fresh: "newId \<notin> set (map msg_oid (messages s))"
    and s1: "s1 = s\<lparr>messages := messages s @ [saved]\<rparr>"
    and sv: "msg_oid saved = newId" "room_id saved = roomId"
      "receivers saved = map (\<lambda>userId. \<lparr>r_userId = userId, r_status = SENT, r_is_deleted = False\<rparr>) recips"
    by (auto simp: saveMessage_def Let_def split: if_splits)
  from getRoom_SomeD [OF room] ids have wfr: "wf_id roomId"
    and wfp: "\<forall>p \<in> set (participants room). wf_id (p_userId p)"
    by (auto simp: ids_ok_def)
  from wfp rec have wfrec: "\<forall>p \<in> set recips. wf_id p" by (auto simp: recipients_of_def)
  have fresh': "msg_oid saved \<notin> set (map msg_oid (messages s))" using fresh sv by simp
  have ids1: "ids_ok s1"
    using ids fresh wfn wfr sv unfolding s1 by (auto simp: ids_ok_def)
  have ok1: "pending_ok s1"
    unfolding pending_ok_alt
  proof (intro allI impI)
    fix k v
    assume g: "redis_get (redis s1) k = Some v" and p: "prefix ''messageStatus:'' k"
    from g ok p have pe: "pending_entry_ok (messages s) k v" by (simp add: s1 pending_ok_alt)
    from pending_entry_okD [OF pe p] obtain p' r' m' where
      k: "k = messageStatusKey p' r' m'" and wf: "wf_id p'" "wf_id r'" "wf_id m'"
      and st: "(v = status_str SENT \<or> v = status_str DELIVERED) \<longrightarrow>
                 receipt (messages s) m' p' \<noteq> Some SEEN \<and> room_of (messages s) m' = Some r'"
      by blast
    have "(v = status_str SENT \<or> v = status_str DELIVERED) \<longrightarrow>
            receipt (messages s1) m' p' \<noteq> Some SEEN \<and> room_of (messages s1) m' = Some r'"
    proof
      assume v: "v = status_str SENT \<or> v = status_str DELIVERED"
      with st have a: "receipt (messages s) m' p' \<noteq> Some SEEN" and b: "room_of (messages s) m' = Some r'"
        by auto
      from room_of_Some_wf [OF b] have "m' \<in> set (map msg_oid (messages s))" by simp
      with fresh' have "m' \<noteq> msg_oid saved" by metis
      then show "receipt (messages s1) m' p' \<noteq> Some SEEN \<and> room_of (messages s1) m' = Some r'"
        using a b fresh' by (simp add: s1 receipt_append_fresh room_of_append_fresh)
    qed
    then show "pending_entry_ok (messages s1) k v"
      unfolding k using wf by (intro pending_entry_okI) auto
  qed
  have rm: "room_of (messages s1) (msg_oid saved) = Some roomId"
    using fresh' sv by (simp add: s1 room_of_append_fresh)
  have seen: "\<forall>q. receipt (messages s1) (msg_oid saved) q = Some SEEN \<longrightarrow> joined s1 roomId q"
    using fresh' by (simp add: s1 receipt_append_fresh receiver_of_def sv(3) receiver_of_fresh_status)
  have mono1: "receipts_mono (messages s) (messages s1)"
    unfolding receipts_mono_def
  proof (intro allI impI)
    fix m u st
    assume r: "receipt (messages s) m u = Some st"
    then have "m \<in> set (map msg_oid (messages s))" by (rule receipt_Some_mem)
    with fresh' have "m \<noteq> msg_oid saved" by metis
    with r fresh' show "\<exists>st'. receipt (messages s1) m u = Some st' \<and> rank st \<le> rank st'"
      by (simp add: s1 receipt_append_fresh)
  qed
  have wfm: "wf_id (msg_oid saved)" using wfn sv by simp
  from deliver_loop_consistent [OF ok1 ids1 wfrec wfr wfm rm seen]
  have "pending_ok (deliver_loop roomId (msg_oid saved) recips s1)"
    and "receipts_mono (messages s1) (messages (deliver_loop roomId (msg_oid saved) recips s1))"
    by simp_all
  moreover have "ids_ok (deliver_loop roomId (msg_oid saved) recips s1) = ids_ok s1"
    by (rule ids_ok_cong) (simp_all add: deliver_loop_frame)
  ultimately show ?thesis using ids1 mono1
    by (auto simp: consistent_def intro: receipts_mono_trans)
qed

lemma handleSend_consistent:
  assumes "consistent s" and "wf_id newId"
  shows "consistent (snd (handleSendMessage c body newId now s))
       \<and> receipts_mono (messages s) (messages (snd (handleSendMessage c body newId now s)))"
  using assms send_core [OF assms]
  by (auto simp: handleSendMessage_def Let_def split: option.splits)

lemma handleUnread_consistent':
  assumes "consistent s" and "wf_id (sock_userId client)"
  shows "consistent (snd (handleUnreadMessages client s))
       \<and> receipts_mono (messages s) (messages (snd (handleUnreadMessages client s)))"
  using assms handleUnread_consistent [of s client]
  by (simp add: consistent_def handleUnread_ids_ok)

lemma handleLoad_consistent':
  assumes "consistent s"
  shows "consistent (snd (handleLoadMessages c s))
       \<and> receipts_mono (messages s) (messages (snd (handleLoadMessages c s)))"
  using assms handleLoad_consistent [of s c]
  by (simp add: consistent_def handleLoad_ids_ok)

lemma consistent_sockets_upd:
  assumes "consistent s" and "wf_id (sock_userId client)"
  shows "consistent (s\<lparr>sockets := (sockets s)(c \<mapsto> client)\<rparr>)"
  using assms by (simp add: consistent_def ids_ok_sockets_upd)

lemma consistent_redis_del:
  assumes "consistent s"
  shows "consistent (s\<lparr>redis := redis_del k (redis s)\<rparr>)"
  using assms by (simp add: consistent_def pending_ok_del)

lemma handleJoin_consistent:
  assumes "consistent s"
  shows "consistent (snd (handleJoinRoom c roomId s))
       \<and> receipts_mono (messages s) (messages (snd (handleJoinRoom c roomId s)))"
proof (cases "sockets s c")
  case None
  then show ?thesis using assms by (simp add: handleJoinRoom_def)
next
  case (Some client)
  have wfu: "wf_id (sock_userId client)"
    using assms Some by (auto simp: consistent_def dest: ids_ok_socket_wf)
  let ?c1 = "client\<lparr>sock_roomId := Some roomId\<rparr>"
  let ?s1 = "s\<lparr>sockets := (sockets s)(c \<mapsto> ?c1)\<rparr>"
  let ?c2 = "?c1\<lparr>sock_rooms := List.insert roomId (sock_rooms ?c1)\<rparr>"
  let ?s2 = "?s1\<lparr>sockets := (sockets ?s1)(c \<mapsto> ?c2)\<rparr>"
  let ?s3 = "clear_messageStatus (sock_userId client) roomId ?s2"
  have c1: "consistent ?s1" using consistent_sockets_upd [of s ?c1 c] assms wfu by simp
  then have "consistent ?s2" using consistent_sockets_upd [of ?s1 ?c2 c] wfu by simp
  then have c3: "consistent ?s3"
    unfolding clear_messageStatus_def by (rule consistent_redis_del)
  have m3: "messages ?s3 = messages s" by (simp add: clear_messageStatus_def)
  from handleLoad_consistent' [OF c3, of c] m3
  have "consistent (snd (handleLoadMessages c ?s3))
       \<and> receipts_mono (messages s) (messages (snd (handleLoadMessages c ?s3)))" by simp
  then show ?thesis using Some c1 assms
    by (auto simp: handleJoinRoom_def Let_def split: option.splits)
qed

lemma handleLeave_consistent:
  assumes "consistent s"
  shows "consistent (snd (handleLeaveRoom c s))
       \<and> receipts_mono (messages s) (messages (snd (handleLeaveRoom c s)))"
proof (cases "sockets s c")
  case None
  then show ?thesis using assms by (simp add: handleLeaveRoom_def)
next
  case (Some client)
  have wfu: "wf_id (sock_userId client)"
    using assms Some by (auto simp: consistent_def dest: ids_ok_socket_wf)
  have "\<And>roomId. consistent (snd (handleUnreadMessages (client\<lparr>sock_rooms := removeAll roomId (sock_rooms client)\<rparr>)
            (clear_messageStatus (sock_userId client) roomId
              (s\<lparr>sockets := (sockets s)(c \<mapsto> client\<lparr>sock_rooms := removeAll roomId (sock_rooms client)\<rparr>)\<rparr>))))
       \<and> receipts_mono (messages s) (messages (snd (handleUnreadMessages (client\<lparr>sock_rooms := removeAll roomId (sock_rooms client)\<rparr>)
            (clear_messageStatus (sock_userId client) roomId
              (s\<lparr>sockets := (sockets s)(c \<mapsto> client\<lparr>sock_rooms := removeAll roomId (sock_rooms client)\<rparr>)\<rparr>)))))"
  proof -
    fix roomId
    let ?c1 = "client\<lparr>sock_rooms := removeAll roomId (sock_rooms client)\<rparr>"
    let ?s1 = "s\<lparr>sockets := (sockets s)(c \<mapsto> ?c1)\<rparr>"
    let ?s2 = "clear_messageStatus (sock_userId client) roomId ?s1"
    have "consistent ?s1" using consistent_sockets_upd [of s ?c1 c] assms wfu by simp
    then have c2: "consistent ?s2" unfolding clear_messageStatus_def by (rule consistent_redis_del)
    have m2: "messages ?s2 = messages s" by (simp add: clear_messageStatus_def)
    have "wf_id (sock_userId ?c1)" using wfu by simp
    from handleUnread_consistent' [OF c2 this] m2
    show "consistent (snd (handleUnreadMessages ?c1 ?s2))
       \<and> receipts_mono (messages s) (messages (snd (handleUnreadMessages ?c1 ?s2)))" by simp
  qed
  then show ?thesis using Some assms
    by (auto simp: handleLeaveRoom_def Let_def split: option.splits)
qed

lemma handleConnection_consistent:
  assumes "consistent s" and "case token of None \<Rightarrow> True | Some userId \<Rightarrow> wf_id userId"
  shows "consistent (handleConnection c token s)
       \<and> receipts_mono (messages s) (messages (handleConnection c token s))"
proof (cases token)
  case None
  then show ?thesis using assms by (simp add: handleConnection_def)
next
  case (Some userId)
  let ?client = "\<lparr>sock_userId = userId, sock_roomId = None, sock_rooms = []\<rparr>"
  let ?s1 = "s\<lparr>sockets := (sockets s)(c \<mapsto> ?client)\<rparr>"
  let ?s2 = "?s1\<lparr>redis := redis_set (userKey userId) c (redis ?s1)\<rparr>"
  have wfu: "wf_id (sock_userId ?client)" using assms(2) Some by simp
  have "consistent ?s1" using assms(1) wfu by (rule consistent_sockets_upd)
  then have c2: "consistent ?s2"
    using pending_ok_set_other' [of ?s1 "userKey userId" ?s2 c]
    by (simp add: consistent_def)
  have m2: "messages ?s2 = messages s" by simp
  from handleUnread_consistent' [OF c2 wfu] m2 show ?thesis
    using Some by (simp add: handleConnection_def Let_def)
qed

lemma handleDisconnect_consistent:
  assumes "consistent s"
  shows "consistent (handleDisconnect c s)
       \<and> receipts_mono (messages s) (messages (handleDisconnect c s))"
proof (cases "sockets s c")
  case None
  then show ?thesis using assms by (simp add: handleDisconnect_def)
next
  case (Some client)
  let ?s1 = "s\<lparr>sockets := (sockets s)(c := None)\<rparr>"
  let ?s2 = "?s1\<lparr>redis := redis_del (userKey (sock_userId client)) (redis ?s1)\<rparr>"
  have c1: "consistent ?s1" using assms by (simp add: consistent_def ids_ok_sockets_del)
  then have "consistent ?s2"
    using pending_ok_del' [of ?s1 ?s2 "userKey (sock_userId client)"]
    by (simp add: consistent_def)
  with c1 show ?thesis using Some by (simp add: handleDisconnect_def Let_def)
qed

lemma createRoom_consistent:
  assumes "consistent s" and "wf_id userId" and "wf_id newId"
    and "\<forall>p \<in> set (dto_participantIds dto). wf_id p"
  shows "consistent (snd (createRoom dto userId newId s))
       \<and> receipts_mono (messages s) (messages (snd (createRoom dto userId newId s)))"
  using assms
  by (auto simp: createRoom_def service_createRoom_def Let_def consistent_def ids_ok_def
      split: option.splits list.splits if_splits)

lemma step_consistent:
  assumes "consistent s" and "wf_event e"
  shows "consistent (step e s) \<and> receipts_mono (messages s) (messages (step e s))"
proof (cases e)
  case (Connect c token)
  then show ?thesis using assms handleConnection_consistent [of s token c] by auto
next
  case (Disconnect c)
  then show ?thesis using assms handleDisconnect_consistent by simp
next
  case (JoinRoom c r)
  then show ?thesis using assms handleJoin_consistent by simp
next
  case (LeaveRoom c)
  then show ?thesis using assms handleLeave_consistent by simp
next
  case (SendMessage c body newId now)
  then show ?thesis using assms handleSend_consistent by simp
next
  case (LoadMessages c)
  then show ?thesis using assms handleLoad_consistent' by simp
next
  case (UnreadMessages c)
  show ?thesis
  proof (cases "sockets s c")
    case None
    then show ?thesis using assms UnreadMessages by simp
  next
    case (Some client)
    have "wf_id (sock_userId client)"
      using assms Some by (auto simp: consistent_def dest: ids_ok_socket_wf)
    from handleUnread_consistent' [OF assms(1) this] Some UnreadMessages show ?thesis by simp
  qed
next
  case (CreateRoom dto userId newId)
  then show ?thesis using assms createRoom_consistent by simp
qed

lemma run_consistent:
  assumes "consistent s" and "\<forall>e \<in> set es. wf_event e"
  shows "consistent (run es s) \<and> receipts_mono (messages s) (messages (run es s))"
  using assms
proof (induction es arbitrary: s)
  case Nil
  then show ?case by simp
next
  case (Cons e es)
  from step_consistent [of s e] Cons.prems
  have a: "consistent (step e s)" and b: "receipts_mono (messages s) (messages (step e s))" by simp_all
  from Cons.IH [OF a] Cons.prems b show ?case by (auto intro: receipts_mono_trans)
qed

lemma consistent_init: "consistent init_state"
  by (simp add: consistent_def ids_ok_def pending_ok_def init_state_def)

section \<open>Receipts only move forward\<close>


lemmas eval_defs = scenario_defs gateway_defs store_defs receipt_def getMessageById_def Let_def




section \<open>Loading messages\<close>







section \<open>The unread summary\<close>

lemma counted_set_same:
  "counted (updateMessageStatus m u st (s\<lparr>redis := redis_set k ''DELIVERED'' (redis s)\<rparr>)) k'
     = (if k' = k then True else counted s k')"
  by (simp add: counted_def updateMessageStatus_def redis_get_set)

lemma unread_loop_Cons_counted:
  "counted s k \<Longrightarrow>
   unread_loop u (k # keys) acc s =
     unread_loop u keys
       (case third_part (split_on CHR '':'' k) of
          None \<Rightarrow> acc\<lparr>totalUnreadCount := totalUnreadCount acc + 1\<rparr>
        | Some r \<Rightarrow> if r \<noteq> []
                   then acc\<lparr>totalUnreadCount := totalUnreadCount acc + 1,
                            roomUnreadCounts := bump_count r (roomUnreadCounts acc)\<rparr>
                   else acc\<lparr>totalUnreadCount := totalUnreadCount acc + 1\<rparr>)
       (updateMessageStatus (last (split_on CHR '':'' k)) u DELIVERED
          (s\<lparr>redis := redis_set k (status_str DELIVERED) (redis s)\<rparr>))"
  by (auto simp: counted_def Let_def split: option.splits)

lemma unread_loop_Cons_not_counted:
  "\<not> counted s k \<Longrightarrow> unread_loop u (k # keys) acc s = unread_loop u keys acc s"
  by (auto simp: counted_def Let_def)

declare unread_loop.simps(2) [simp del]








lemma unread_loop_receipt_exists:
  "receipt (messages (snd (unread_loop u keys acc s))) m q = None \<longleftrightarrow> receipt (messages s) m q = None"
proof (induction keys arbitrary: acc s)
  case Nil
  then show ?case by simp
next
  case (Cons h keys)
  show ?case
  proof (cases "counted s h")
    case False
    then show ?thesis using Cons by (simp add: unread_loop_Cons_not_counted)
  next
    case True
    then show ?thesis using Cons
      by (simp add: unread_loop_Cons_counted updateMessageStatus_def receipt_updateOne)
  qed
qed



lemma last_messageStatusKey:
  assumes "CHR '':'' \<notin> set u" and "CHR '':'' \<notin> set r" and "CHR '':'' \<notin> set m"
  shows "last (split_on CHR '':'' (messageStatusKey u r m)) = m"
  using assms by (simp add: split_messageStatusKey4)





section \<open>No receipt goes back to SENT\<close>

lemma receipts_past_sent_refl [simp]: "receipts_past_sent ms ms"
  by (simp add: receipts_past_sent_def)
















section \<open>A message sent to an offline recipient\<close>

lemma unread_loop_counted_mono:
  "counted s k \<Longrightarrow> counted (snd (unread_loop u keys acc s)) k"
proof (induction keys arbitrary: acc s)
  case Nil
  then show ?case by simp
next
  case (Cons h keys)
  show ?case
  proof (cases "counted s h")
    case False
    then show ?thesis using Cons by (simp add: unread_loop_Cons_not_counted)
  next
    case True
    let ?s2 = "updateMessageStatus (last (split_on CHR '':'' h)) u DELIVERED
                 (s\<lparr>redis := redis_set h (status_str DELIVERED) (redis s)\<rparr>)"
    have "counted ?s2 k" using Cons.prems by (simp add: counted_set_same)
    from Cons.IH [OF this] True show ?thesis by (simp add: unread_loop_Cons_counted)
  qed
qed

lemma handleUnread_counted_mono:
  "counted s k \<Longrightarrow> counted (snd (handleUnreadMessages client s)) k"
  by (simp add: handleUnreadMessages_def Let_def unread_loop_counted_mono)

lemma messageStatusKey_same_rm [simp]:
  "messageStatusKey p r m = messageStatusKey q r m \<longleftrightarrow> p = q"
  by (simp add: messageStatusKey_def)

lemma counted_set_other:
  "k' \<noteq> k \<Longrightarrow> counted (updateMessageStatus m u st (s\<lparr>redis := redis_set k v (redis s)\<rparr>)) k' = counted s k'"
  by (simp add: counted_def updateMessageStatus_def redis_get_set)

lemma counted_set_only:
  "k' \<noteq> k \<Longrightarrow> counted (s\<lparr>redis := redis_set k v (redis s)\<rparr>) k' = counted s k'"
  by (simp add: counted_def redis_get_set)

lemma deliver_counted:
  assumes "counted s k" and "k \<noteq> messageStatusKey q r m"
  shows "counted (deliver r m q s) k"
  using assms
  by (auto simp: deliver_def Let_def counted_set_other counted_set_only
      intro!: handleUnread_counted_mono split: option.splits)



lemma deliver_receipt_exists:
  "receipt (messages (deliver r m q s)) m' q' = None \<longleftrightarrow> receipt (messages s) m' q' = None"
  by (auto simp: deliver_def Let_def handleUnreadMessages_def unread_loop_receipt_exists
      updateMessageStatus_def receipt_updateOne split: option.splits)

lemma deliver_loop_receipt_exists:
  "receipt (messages (deliver_loop r m ps s)) m' q' = None \<longleftrightarrow> receipt (messages s) m' q' = None"
  by (induction ps arbitrary: s) (simp_all add: deliver_receipt_exists)

lemma last_split_key_message:
  assumes "CHR '':'' \<notin> set m"
  shows "last (split_on CHR '':'' (messageStatusKey u r m)) = m"
proof -
  have k: "messageStatusKey u r m = (''messageStatus:'' @ u @ '':'' @ r) @ CHR '':'' # m"
    by (simp add: messageStatusKey_def)
  have "split_on CHR '':'' (messageStatusKey u r m)
        = split_on CHR '':'' (''messageStatus:'' @ u @ '':'' @ r) @ split_on CHR '':'' m"
    unfolding k by (rule split_on_sep_append)
  then show ?thesis using assms by (simp add: split_on_no_sep)
qed





lemma successful_send:
  assumes "handleSendMessage c body newId now s0 = (Reply_ok msg, s)"
    and "sockets s0 c = Some sender" and "sock_roomId sender = Some roomId"
    and "getRoom s0 roomId = Some room"
  shows "\<exists>saved s1. saveMessage newId now roomId (sock_userId sender) body
                      (recipients_of room (sock_userId sender)) s0 = Some (saved, s1)
           \<and> msg_oid saved = newId
           \<and> s = deliver_loop roomId newId (recipients_of room (sock_userId sender)) s1"
  using assms
  by (auto simp: handleSendMessage_def Let_def saveMessage_def split: option.splits if_splits)

lemma saved_receipt:
  assumes "saveMessage newId now roomId senderId body recips s0 = Some (saved, s1)"
  shows "receipt (messages s1) newId p = (if p \<in> set recips then Some SENT else None)"
    and "redis s1 = redis s0" and "sockets s1 = sockets s0"
proof -
  from assms have fresh: "msg_oid saved \<notin> set (map msg_oid (messages s0))"
    and s1: "s1 = s0\<lparr>messages := messages s0 @ [saved]\<rparr>"
    and sv: "msg_oid saved = newId"
      "receivers saved = map (\<lambda>userId. \<lparr>r_userId = userId, r_status = SENT, r_is_deleted = False\<rparr>) recips"
    by (auto simp: saveMessage_def Let_def split: if_splits)
  show "receipt (messages s1) newId p = (if p \<in> set recips then Some SENT else None)"
    using fresh sv by (simp add: s1 receipt_append_fresh receiver_of_def receiver_of_fresh_status)
  show "redis s1 = redis s0" and "sockets s1 = sockets s0" by (simp_all add: s1)
qed







lemma ex_after_send_eval:
  "handleSendMessage ''c1'' ''hi'' ex_msg_id 1 ex_before_send = (Reply_ok ''Success'', ex_after_send)"
  "redis ex_after_send = [(userKey ''alice'', ''c1''), (messageStatusKey ''bob'' ex_room_id ex_msg_id, ''SENT'')]"
  "receipt (messages ex_after_send) ex_msg_id ''bob'' = Some SENT"
  by (simp_all add: ex_after_send_def ex_before_send_def eval_defs unread_loop.simps)


section \<open>A recipient who is in the room\<close>

lemma save_consistent:
  assumes con: "consistent s" and wfn: "wf_id newId"
    and room: "getRoom s roomId = Some room"
    and save: "saveMessage newId now roomId senderId body (recipients_of room senderId) s = Some (saved, s1)"
  shows "pending_ok s1" and "ids_ok s1"
    and "wf_id roomId" and "\<forall>p \<in> set (recipients_of room senderId). wf_id p"
    and "room_of (messages s1) newId = Some roomId"
    and "\<forall>q. receipt (messages s1) newId q \<noteq> Some SEEN"
    and "\<forall>k. prefix ''messageStatus:'' k \<longrightarrow> last (split_on CHR '':'' k) = newId \<longrightarrow> \<not> counted s1 k"
proof -
  let ?recips = "recipients_of room senderId"
  from con have ids: "ids_ok s" and ok: "pending_ok s" by (simp_all add: consistent_def)
  from save have fresh: "newId \<notin> set (map msg_oid (messages s))"
    and s1: "s1 = s\<lparr>messages := messages s @ [saved]\<rparr>"
    and sv: "msg_oid saved = newId" "room_id saved = roomId"
      "receivers saved = map (\<lambda>userId. \<lparr>r_userId = userId, r_status = SENT, r_is_deleted = False\<rparr>) ?recips"
    by (auto simp: saveMessage_def Let_def split: if_splits)
  from getRoom_SomeD [OF room] ids show wfr: "wf_id roomId"
    by (auto simp: ids_ok_def)
  from getRoom_SomeD [OF room] ids have "\<forall>p \<in> set (participants room). wf_id (p_userId p)"
    by (auto simp: ids_ok_def)
  then show "\<forall>p \<in> set ?recips. wf_id p" by (auto simp: recipients_of_def)
  have fresh': "msg_oid saved \<notin> set (map msg_oid (messages s))" using fresh sv by simp
  show "ids_ok s1"
    using ids fresh wfn wfr sv unfolding s1 by (auto simp: ids_ok_def)
  have stale: "\<And>k v. redis_get (redis s) k = Some v \<Longrightarrow> prefix ''messageStatus:'' k \<Longrightarrow>
      v = status_str SENT \<or> v = status_str DELIVERED \<Longrightarrow> last (split_on CHR '':'' k) \<noteq> newId"
  proof -
    fix k v
    assume g: "redis_get (redis s) k = Some v" and p: "prefix ''messageStatus:'' k"
      and v: "v = status_str SENT \<or> v = status_str DELIVERED"
    from g ok p have "pending_entry_ok (messages s) k v" by (simp add: pending_ok_alt)
    from pending_entry_okD [OF this p] v obtain p' r' m' where
      sp: "split_on CHR '':'' k = [''messageStatus'', p', r', m']"
      and rm: "room_of (messages s) m' = Some r'" by blast
    from room_of_Some_wf [OF rm] have "m' \<in> set (map msg_oid (messages s))" by simp
    with fresh have "m' \<noteq> newId" by metis
    then show "last (split_on CHR '':'' k) \<noteq> newId" by (simp add: sp)
  qed
  show "\<forall>k. prefix ''messageStatus:'' k \<longrightarrow> last (split_on CHR '':'' k) = newId \<longrightarrow> \<not> counted s1 k"
    using stale by (auto simp: counted_def s1)
  show "pending_ok s1"
    unfolding pending_ok_alt
  proof (intro allI impI)
    fix k v
    assume g: "redis_get (redis s1) k = Some v" and p: "prefix ''messageStatus:'' k"
    from g ok p have pe: "pending_entry_ok (messages s) k v" by (simp add: s1 pending_ok_alt)
    from pending_entry_okD [OF pe p] obtain p' r' m' where
      k: "k = messageStatusKey p' r' m'" and wf: "wf_id p'" "wf_id r'" "wf_id m'"
      and st: "(v = status_str SENT \<or> v = status_str DELIVERED) \<longrightarrow>
                 receipt (messages s) m' p' \<noteq> Some SEEN \<and> room_of (messages s) m' = Some r'"
      by blast
    have "(v = status_str SENT \<or> v = status_str DELIVERED) \<longrightarrow>
            receipt (messages s1) m' p' \<noteq> Some SEEN \<and> room_of (messages s1) m' = Some r'"
    proof
      assume v: "v = status_str SENT \<or> v = status_str DELIVERED"
      with st have a: "receipt (messages s) m' p' \<noteq> Some SEEN" and b: "room_of (messages s) m' = Some r'"
        by auto
      from room_of_Some_wf [OF b] have "m' \<in> set (map msg_oid (messages s))" by simp
      with fresh' have "m' \<noteq> msg_oid saved" by metis
      then show "receipt (messages s1) m' p' \<noteq> Some SEEN \<and> room_of (messages s1) m' = Some r'"
        using a b fresh' by (simp add: s1 receipt_append_fresh room_of_append_fresh)
    qed
    then show "pending_entry_ok (messages s1) k v"
      unfolding k using wf by (intro pending_entry_okI) auto
  qed
  show "room_of (messages s1) newId = Some roomId"
    using fresh' sv by (simp add: s1 room_of_append_fresh)
  show "\<forall>q. receipt (messages s1) newId q \<noteq> Some SEEN"
    using fresh' sv(1) by (simp add: s1 receipt_append_fresh receiver_of_def sv(3) receiver_of_fresh_status)
qed

lemma pending_ok_mark:
  assumes ok: "pending_ok s" and wf: "wf_id p" "wf_id r" "wf_id m"
    and rm: "room_of (messages s) m = Some r" and st: "st \<noteq> SEEN"
  shows "pending_ok (updateMessageStatus m p st (s\<lparr>redis := redis_set (messageStatusKey p r m) v (redis s)\<rparr>))"
  unfolding pending_ok_alt
proof (intro allI impI)
  let ?s2 = "updateMessageStatus m p st (s\<lparr>redis := redis_set (messageStatusKey p r m) v (redis s)\<rparr>)"
  fix k' v'
  assume g: "redis_get (redis ?s2) k' = Some v'" and p': "prefix ''messageStatus:'' k'"
  show "pending_entry_ok (messages ?s2) k' v'"
  proof (cases "k' = messageStatusKey p r m")
    case True
    have "receipt (updateOne_status m p st (messages s)) m p \<noteq> Some SEEN"
      using st by (simp add: receipt_updateOne)
    then show ?thesis unfolding True using wf rm
      by (intro pending_entry_okI) (auto simp: updateMessageStatus_def)
  next
    case False
    with g have "redis_get (redis s) k' = Some v'"
      by (simp add: updateMessageStatus_def redis_get_set)
    with ok p' have "pending_entry_ok (messages s) k' v'" by (simp add: pending_ok_alt)
    then show ?thesis using st
      by (simp add: updateMessageStatus_def pending_entry_ok_update_nonseen)
  qed
qed

lemma unread_loop_untouched:
  assumes "\<forall>k \<in> set keys. counted s k \<longrightarrow> \<not> (last (split_on CHR '':'' k) = m \<and> u = p)"
  shows "receipt (messages (snd (unread_loop u keys acc s))) m p = receipt (messages s) m p"
  using assms
proof (induction keys arbitrary: acc s)
  case Nil
  then show ?case by simp
next
  case (Cons h keys)
  show ?case
  proof (cases "counted s h")
    case False
    then show ?thesis using Cons by (simp add: unread_loop_Cons_not_counted)
  next
    case True
    let ?s2 = "updateMessageStatus (last (split_on CHR '':'' h)) u DELIVERED
                 (s\<lparr>redis := redis_set h (status_str DELIVERED) (redis s)\<rparr>)"
    have h: "\<not> (last (split_on CHR '':'' h) = m \<and> u = p)" using Cons.prems True by simp
    then have r: "receipt (messages ?s2) m p = receipt (messages s) m p"
      by (auto simp: updateMessageStatus_def receipt_updateOne)
    have "\<forall>k \<in> set keys. counted ?s2 k \<longrightarrow> \<not> (last (split_on CHR '':'' k) = m \<and> u = p)"
      using Cons.prems h by (auto simp: counted_set_same split: if_splits)
    from Cons.IH [OF this] r True show ?thesis by (simp add: unread_loop_Cons_counted)
  qed
qed

lemma unread_loop_not_counted:
  assumes "\<not> counted s k"
  shows "redis_get (redis (snd (unread_loop u keys acc s))) k = redis_get (redis s) k"
  using assms
proof (induction keys arbitrary: acc s)
  case Nil
  then show ?case by simp
next
  case (Cons h keys)
  show ?case
  proof (cases "counted s h")
    case False
    then show ?thesis using Cons by (simp add: unread_loop_Cons_not_counted)
  next
    case True
    let ?s2 = "updateMessageStatus (last (split_on CHR '':'' h)) u DELIVERED
                 (s\<lparr>redis := redis_set h (status_str DELIVERED) (redis s)\<rparr>)"
    from True Cons.prems have ne: "k \<noteq> h" by auto
    then have a: "\<not> counted ?s2 k" using Cons.prems by (simp add: counted_set_same)
    have "redis_get (redis ?s2) k = redis_get (redis s) k"
      using ne by (simp add: updateMessageStatus_def redis_get_set)
    with Cons.IH [OF a] True show ?thesis by (simp add: unread_loop_Cons_counted)
  qed
qed

lemma handleUnread_untouched:
  assumes ok: "pending_ok s" and wfu: "wf_id (sock_userId socket)"
    and rm: "room_of (messages s) m = Some r"
    and nc: "\<not> counted s (messageStatusKey p r m)"
  shows "receipt (messages (snd (handleUnreadMessages socket s))) m p = receipt (messages s) m p"
    and "redis_get (redis (snd (handleUnreadMessages socket s))) (messageStatusKey p r m)
         = redis_get (redis s) (messageStatusKey p r m)"
proof -
  let ?u = "sock_userId socket"
  have "\<forall>k \<in> set (redis_keys (unread_pattern ?u) (redis s)).
          counted s k \<longrightarrow> \<not> (last (split_on CHR '':'' k) = m \<and> ?u = p)"
  proof (intro ballI impI notI)
    fix k
    assume k: "k \<in> set (redis_keys (unread_pattern ?u) (redis s))" and c: "counted s k"
      and e: "last (split_on CHR '':'' k) = m \<and> ?u = p"
    from k wfu have pk: "prefix (user_prefix ?u) k"
      by (simp add: redis_keys_set unread_pattern_matches)
    then have pk': "prefix ''messageStatus:'' k" by (rule unread_prefix_pending)
    from c obtain v where v: "redis_get (redis s) k = Some v"
      "v = status_str SENT \<or> v = status_str DELIVERED" by (auto simp: counted_def)
    from ok v(1) pk' have "pending_entry_ok (messages s) k v" by (simp add: pending_ok_alt)
    from pending_entry_okD [OF this pk'] v(2) obtain p' r' m' where
      kk: "k = messageStatusKey p' r' m'" and wf: "wf_id p'" "wf_id r'" "wf_id m'"
      and sp: "split_on CHR '':'' k = [''messageStatus'', p', r', m']"
      and rm': "room_of (messages s) m' = Some r'" by blast
    have "p' = ?u" using user_prefix_of_key [of ?u p' r' m'] pk kk wfu wf(1)
      by (simp add: wf_id_no_colon)
    moreover have "m' = m" using e sp by simp
    moreover have "r' = r" using rm rm' \<open>m' = m\<close> by simp
    ultimately have "k = messageStatusKey p r m" using kk e by simp
    with c nc show False by simp
  qed
  from unread_loop_untouched [OF this]
  show "receipt (messages (snd (handleUnreadMessages socket s))) m p = receipt (messages s) m p"
    by (simp add: handleUnreadMessages_def Let_def)
  show "redis_get (redis (snd (handleUnreadMessages socket s))) (messageStatusKey p r m)
         = redis_get (redis s) (messageStatusKey p r m)"
    using nc by (simp add: handleUnreadMessages_def Let_def unread_loop_not_counted)
qed

lemma deliver_joined_recipient:
  assumes ok: "pending_ok s" and ids: "ids_ok s"
    and wf: "wf_id p" "wf_id q" "wf_id r" "wf_id m"
    and rm: "room_of (messages s) m = Some r"
    and j: "joined s r p" and nc: "\<not> counted s (messageStatusKey p r m)"
    and ex: "receipt (messages s) m p \<noteq> None"
  shows "receipt (messages (deliver r m q s)) m p = (if q = p then Some SEEN else receipt (messages s) m p)"
    and "redis_get (redis (deliver r m q s)) (messageStatusKey p r m)
         = (if q = p then Some (status_str SEEN) else redis_get (redis s) (messageStatusKey p r m))"
proof -
  let ?Kp = "messageStatusKey p r m"
  let ?Kq = "messageStatusKey q r m"
  have goal: "receipt (messages (deliver r m q s)) m p = (if q = p then Some SEEN else receipt (messages s) m p)
     \<and> redis_get (redis (deliver r m q s)) ?Kp
         = (if q = p then Some (status_str SEEN) else redis_get (redis s) ?Kp)"
  proof (cases "q = p")
    case True
    from j obtain c socket where "redis_get (redis s) (userKey p) = Some c" "c \<noteq> []"
      "sockets s c = Some socket" "r \<in> set (sock_rooms socket)"
      by (auto simp: joined_def split: option.splits)
    then have "deliver r m p s = updateMessageStatus m p SEEN (s\<lparr>redis := redis_set ?Kp (status_str SEEN) (redis s)\<rparr>)"
      by (simp add: deliver_def Let_def)
    then show ?thesis using True ex
      by (simp add: updateMessageStatus_def receipt_updateOne redis_get_set)
  next
    case False
    then have ne: "?Kp \<noteq> ?Kq" by simp
    let ?c = "redis_get (redis s) (userKey q)"
    show ?thesis
    proof (cases "?c \<noteq> None \<and> ?c \<noteq> Some []")
      case no: False
      then show ?thesis using False ne by (auto simp: deliver_def Let_def redis_get_set)
    next
      case True
      then obtain c where c: "?c = Some c" "c \<noteq> []" by auto
      show ?thesis
      proof (cases "sockets s c")
        case None
        then show ?thesis using c False by (simp add: deliver_def Let_def)
      next
        case (Some socket)
        show ?thesis
        proof (cases "r \<in> set (sock_rooms socket)")
          case True
          then have "deliver r m q s = updateMessageStatus m q SEEN (s\<lparr>redis := redis_set ?Kq (status_str SEEN) (redis s)\<rparr>)"
            using c Some by (simp add: deliver_def Let_def)
          then show ?thesis using False ne
            by (simp add: updateMessageStatus_def receipt_updateOne redis_get_set)
        next
          case nr: False
          let ?s2 = "updateMessageStatus m q DELIVERED (s\<lparr>redis := redis_set ?Kq (status_str DELIVERED) (redis s)\<rparr>)"
          have d: "deliver r m q s = snd (handleUnreadMessages socket ?s2)"
            using c Some nr by (simp add: deliver_def Let_def)
          have ok2: "pending_ok ?s2" using pending_ok_mark [OF ok wf(2,3,4) rm] by simp
          have wfu: "wf_id (sock_userId socket)" using ids Some by (rule ids_ok_socket_wf)
          have rm2: "room_of (messages ?s2) m = Some r" using rm by (simp add: updateMessageStatus_def)
          have nc2: "\<not> counted ?s2 ?Kp" using nc ne by (simp add: counted_set_other)
          have r2: "receipt (messages ?s2) m p = receipt (messages s) m p"
            using False by (simp add: updateMessageStatus_def receipt_updateOne)
          have g2: "redis_get (redis ?s2) ?Kp = redis_get (redis s) ?Kp"
            using ne by (simp add: updateMessageStatus_def redis_get_set)
          from handleUnread_untouched [OF ok2 wfu rm2 nc2] r2 g2 False show ?thesis
            unfolding d by simp
        qed
      qed
    qed
  qed
  from goal show "receipt (messages (deliver r m q s)) m p = (if q = p then Some SEEN else receipt (messages s) m p)"
    and "redis_get (redis (deliver r m q s)) ?Kp
         = (if q = p then Some (status_str SEEN) else redis_get (redis s) ?Kp)"
    by simp_all
qed

lemma deliver_loop_joined_recipient:
  assumes "pending_ok s" and "ids_ok s"
    and "wf_id p" and "\<forall>q \<in> set ps. wf_id q" and "wf_id r" and "wf_id m"
    and "room_of (messages s) m = Some r"
    and "\<forall>q. receipt (messages s) m q = Some SEEN \<longrightarrow> joined s r q"
    and "joined s r p" and "\<not> counted s (messageStatusKey p r m)"
    and "receipt (messages s) m p \<noteq> None"
  shows "receipt (messages (deliver_loop r m ps s)) m p
           = (if p \<in> set ps then Some SEEN else receipt (messages s) m p)
       \<and> redis_get (redis (deliver_loop r m ps s)) (messageStatusKey p r m)
           = (if p \<in> set ps then Some (status_str SEEN) else redis_get (redis s) (messageStatusKey p r m))"
  using assms
proof (induction ps arbitrary: s)
  case Nil
  then show ?case by simp
next
  case (Cons q ps)
  let ?s' = "deliver r m q s"
  let ?K = "messageStatusKey p r m"
  have wfq: "wf_id q" using Cons.prems(4) by simp
  note dj = deliver_joined_recipient [OF Cons.prems(1,2,3) wfq Cons.prems(5,6,7,9,10,11)]
  note dc = deliver_consistent [OF Cons.prems(1,2) wfq Cons.prems(5,6,7,8)]
  have a: "ids_ok ?s'" using Cons.prems(2) by (simp add: deliver_ids_ok)
  have b: "\<forall>q \<in> set ps. wf_id q" using Cons.prems(4) by simp
  have c: "room_of (messages ?s') m = Some r" using Cons.prems(7) by (simp add: deliver_room_of)
  have e: "\<forall>q'. receipt (messages ?s') m q' = Some SEEN \<longrightarrow> joined ?s' r q'"
    using dc(3) by (simp add: deliver_joined)
  have f: "joined ?s' r p" using Cons.prems(9) by (simp add: deliver_joined)
  have g: "\<not> counted ?s' ?K" using dj(2) Cons.prems(10) by (auto simp: counted_def)
  have h: "receipt (messages ?s') m p \<noteq> None" using Cons.prems(11) by (simp add: deliver_receipt_exists)
  from Cons.IH [OF dc(1) a Cons.prems(3) b Cons.prems(5,6) c e f g h] dj
  show ?case by auto
qed

lemma ex_both_joined_consistent: "consistent ex_both_joined"
proof -
  have "\<forall>e \<in> set [CreateRoom ex_dto ''alice'' ex_room_id,
                         Connect ''c1'' (Some ''alice''), JoinRoom ''c1'' ex_room_id,
                         Connect ''c2'' (Some ''bob''), JoinRoom ''c2'' ex_room_id]. wf_event e"
    by (simp add: wf_id_def ex_dto_def ex_room_id_def)
  from run_consistent [OF consistent_init this] show ?thesis by (simp add: ex_both_joined_def)
qed

lemma ex_both_joined_eval:
  "sockets ex_both_joined ''c1''
     = Some \<lparr>sock_userId = ''alice'', sock_roomId = Some ex_room_id, sock_rooms = [ex_room_id]\<rparr>"
  "getRoom ex_both_joined ex_room_id
     = Some \<lparr>room_oid = ex_room_id, room_name = Some ''Team'', room_type = GROUP, room_status = True,
             room_image = Some [],
             participants = [\<lparr>p_userId = ''bob'', p_status = REQUEST, p_is_deleted = False\<rparr>,
                             \<lparr>p_userId = ''alice'', p_status = ACCEPT, p_is_deleted = False\<rparr>],
             admins = [''alice''], room_created_by = ''alice'', room_updated_by = ''alice'',
             room_is_deleted = False\<rparr>"
  "joined ex_both_joined ex_room_id ''bob''"
  "fst (handleSendMessage ''c1'' ''hi'' ex_msg_id 1 ex_both_joined) = Reply_ok ''Success''"
  "redis_get (redis ex_both_joined) (messageStatusKey ''bob'' ex_room_id ex_msg_id) = None"
  by (simp_all add: ex_both_joined_def joined_def eval_defs unread_loop.simps)

section \<open>The pending index as a projection of the receipts\<close>

lemma index_complete_upto_UNIV: "index_complete_upto s m UNIV = index_complete s"
  by (simp add: index_complete_upto_def index_complete_def)

lemma index_completeD:
  assumes "index_complete s"
    and "receipt (messages s) m p = Some SENT \<or> receipt (messages s) m p = Some DELIVERED"
    and "room_of (messages s) m = Some r"
  shows "counted s (messageStatusKey p r m)"
  using assms unfolding index_complete_def by blast

lemma index_complete_uptoD:
  assumes "index_complete_upto s m D"
    and "receipt (messages s) m' p = Some SENT \<or> receipt (messages s) m' p = Some DELIVERED"
    and "room_of (messages s) m' = Some r" and "m' \<noteq> m \<or> p \<in> D"
  shows "counted s (messageStatusKey p r m')"
  using assms unfolding index_complete_upto_def by blast

lemma key_eq_message:
  assumes "messageStatusKey p r m = messageStatusKey p' r' m'"
    and "CHR '':'' \<notin> set m" and "CHR '':'' \<notin> set m'"
  shows "m = m'" and "r = r' \<Longrightarrow> p = p'"
proof -
  have "last (split_on CHR '':'' (messageStatusKey p r m)) = m"
    using assms(2) by (rule last_split_key_message)
  moreover have "last (split_on CHR '':'' (messageStatusKey p' r' m')) = m'"
    using assms(3) by (rule last_split_key_message)
  ultimately show m: "m = m'" using assms(1) by simp
  assume "r = r'"
  with assms(1) m show "p = p'" by (simp add: messageStatusKey_def)
qed

lemma room_of_msg_wf:
  assumes "ids_ok s" and "room_of (messages s) m = Some r"
  shows "wf_id m" and "wf_id r"
  using room_of_Some_wf [OF assms(2)] assms(1) by (auto simp: ids_ok_def)

lemma counted_cong:
  "redis_get (redis s') k = redis_get (redis s) k \<Longrightarrow> counted s' k = counted s k"
  by (simp add: counted_def)

lemma counted_userKey_set [simp]:
  "counted (s\<lparr>redis := redis_set (userKey u) c (redis s)\<rparr>) (messageStatusKey p r m)
     = counted s (messageStatusKey p r m)"
  by (simp add: counted_def redis_get_set userKey_neq_messageStatusKey [symmetric])

lemma receipts_mono_not_SEEN:
  assumes "receipts_mono ms ms'" and "receipt ms' m p = Some SENT \<or> receipt ms' m p = Some DELIVERED"
    and "receipt ms m p \<noteq> None"
  shows "receipt ms m p = Some SENT \<or> receipt ms m p = Some DELIVERED"
proof -
  from assms(3) obtain st where st: "receipt ms m p = Some st" by auto
  with assms(1) have "\<exists>st'. receipt ms' m p = Some st' \<and> rank st \<le> rank st'"
    unfolding receipts_mono_def by blast
  then obtain st' where "receipt ms' m p = Some st'" "rank st \<le> rank st'" by blast
  with assms(2) have "st \<noteq> SEEN" by auto
  with st show ?thesis by (cases st) auto
qed

text \<open>The unread sweep.\<close>

lemma handleUnread_counted_back:
  "counted (snd (handleUnreadMessages client s)) k \<Longrightarrow> counted s k"
proof (rule ccontr)
  assume c: "counted (snd (handleUnreadMessages client s)) k" and n: "\<not> counted s k"
  from unread_loop_not_counted [OF n]
  have "redis_get (redis (snd (handleUnreadMessages client s))) k = redis_get (redis s) k"
    by (simp add: handleUnreadMessages_def Let_def)
  then have "counted (snd (handleUnreadMessages client s)) k = counted s k" by (rule counted_cong)
  with c n show False by simp
qed

lemma handleUnread_receipt_exists:
  "receipt (messages (snd (handleUnreadMessages client s))) m q = None \<longleftrightarrow> receipt (messages s) m q = None"
  by (simp add: handleUnreadMessages_def Let_def unread_loop_receipt_exists)

lemma handleUnread_room_of:
  "room_of (messages (snd (handleUnreadMessages client s))) m = room_of (messages s) m"
  by (simp add: handleUnreadMessages_def Let_def unread_loop_room_of)

lemma handleUnread_index_upto:
  assumes "pending_ok s" and "wf_id (sock_userId client)" and "index_complete_upto s m D"
  shows "index_complete_upto (snd (handleUnreadMessages client s)) m D"
  unfolding index_complete_upto_def
proof (intro allI impI)
  let ?s' = "snd (handleUnreadMessages client s)"
  fix m' p r
  assume r': "receipt (messages ?s') m' p = Some SENT \<or> receipt (messages ?s') m' p = Some DELIVERED"
    and rm: "room_of (messages ?s') m' = Some r" and d: "m' \<noteq> m \<or> p \<in> D"
  have ex: "receipt (messages s) m' p \<noteq> None"
    using r' handleUnread_receipt_exists [of client s m' p] by auto
  from receipts_mono_not_SEEN [OF handleUnread_consistent(2) [OF assms(1,2)] r' ex]
  have r0: "receipt (messages s) m' p = Some SENT \<or> receipt (messages s) m' p = Some DELIVERED" .
  have rm0: "room_of (messages s) m' = Some r" using rm by (simp add: handleUnread_room_of)
  from assms(3) r0 rm0 d have "counted s (messageStatusKey p r m')"
    unfolding index_complete_upto_def by blast
  then show "counted ?s' (messageStatusKey p r m')" by (rule handleUnread_counted_mono)
qed

lemma handleUnread_entries:
  assumes "entries_have_receipts s"
  shows "entries_have_receipts (snd (handleUnreadMessages client s))"
  using assms handleUnread_counted_back [of client s]
  by (auto simp: entries_have_receipts_def handleUnread_receipt_exists)

lemma presence_ok_cong:
  assumes "\<And>q. redis_get (redis s') (userKey q) = redis_get (redis s) (userKey q)"
    and "sockets s' = sockets s"
  shows "presence_ok s' = presence_ok s"
  using assms by (simp add: presence_ok_def)

lemma named_sockets_cong: "sockets s' = sockets s \<Longrightarrow> named_sockets s' = named_sockets s"
  by (simp add: named_sockets_def)

lemma handleUnread_projection:
  assumes "projection_ok s" and "wf_id (sock_userId client)"
  shows "projection_ok (snd (handleUnreadMessages client s))"
proof -
  let ?s' = "snd (handleUnreadMessages client s)"
  from assms(1) have c: "consistent s" and p: "presence_ok s" and n: "named_sockets s"
    and i: "index_complete s" and e: "entries_have_receipts s"
    by (simp_all add: projection_ok_def)
  have "consistent ?s'" using handleUnread_consistent' [OF c assms(2)] by simp
  moreover have "presence_ok ?s'"
    using p presence_ok_cong [of ?s' s] by (simp add: handleUnread_userKey handleUnread_frame)
  moreover have "named_sockets ?s'"
    using n named_sockets_cong [of ?s' s] by (simp add: handleUnread_frame)
  moreover have "index_complete ?s'"
    using handleUnread_index_upto [of s client undefined UNIV] c assms(2) i
    by (simp add: index_complete_upto_UNIV consistent_def)
  moreover have "entries_have_receipts ?s'" using e by (rule handleUnread_entries)
  ultimately show ?thesis by (simp add: projection_ok_def)
qed

text \<open>Changes of the presence entries and of the sockets.\<close>

lemma index_complete_cong:
  assumes "messages s' = messages s"
    and "\<And>p r m. counted s' (messageStatusKey p r m) = counted s (messageStatusKey p r m)"
  shows "index_complete s' = index_complete s" and "entries_have_receipts s' = entries_have_receipts s"
  using assms by (simp_all add: index_complete_def entries_have_receipts_def)

lemma counted_del_userKey [simp]:
  "counted (s\<lparr>redis := redis_del (userKey u) (redis s)\<rparr>) (messageStatusKey p r m)
     = counted s (messageStatusKey p r m)"
  by (simp add: counted_def redis_get_del userKey_neq_messageStatusKey [symmetric])

lemma counted_sockets [simp]: "counted (s\<lparr>sockets := x\<rparr>) k = counted s k"
  by (simp add: counted_def)

lemma userKey_inj [simp]: "userKey a = userKey b \<longleftrightarrow> a = b"
  by (simp add: userKey_def)

lemma projection_socket_upd:
  assumes "projection_ok s" and "sockets s c = Some client" and "sock_userId client' = sock_userId client"
  shows "projection_ok (s\<lparr>sockets := (sockets s)(c \<mapsto> client')\<rparr>)"
proof -
  let ?s' = "s\<lparr>sockets := (sockets s)(c \<mapsto> client')\<rparr>"
  from assms(1) have c: "consistent s" and p: "presence_ok s" and n: "named_sockets s"
    and i: "index_complete s" and e: "entries_have_receipts s"
    by (simp_all add: projection_ok_def)
  have wfu: "wf_id (sock_userId client')"
    using c assms(2,3) by (auto simp: consistent_def dest: ids_ok_socket_wf)
  have "consistent ?s'" using c wfu by (rule consistent_sockets_upd)
  moreover have "presence_ok ?s'"
    unfolding presence_ok_def
  proof (intro allI impI)
    fix q cid
    assume "redis_get (redis ?s') (userKey q) = Some cid" and "cid \<noteq> []"
    with p obtain sock where sk: "sockets s cid = Some sock" "sock_userId sock = q"
      unfolding presence_ok_def by fastforce
    show "\<exists>socket. sockets ?s' cid = Some socket \<and> sock_userId socket = q"
    proof (cases "cid = c")
      case True
      with sk assms(2,3) show ?thesis by simp
    next
      case False
      with sk show ?thesis by simp
    qed
  qed
  moreover have "named_sockets ?s'"
    using n assms(2,3) unfolding named_sockets_def ran_def by (auto split: if_splits)
  moreover have "index_complete ?s'" "entries_have_receipts ?s'"
    using i e index_complete_cong [of ?s' s] by simp_all
  ultimately show ?thesis by (simp add: projection_ok_def)
qed

text \<open>The wildcard cleanup.\<close>

lemma clear_projection:
  assumes "projection_ok s"
  shows "projection_ok (clear_messageStatus u r s)"
proof -
  let ?s' = "clear_messageStatus u r s"
  from assms(1) have c: "consistent s" and p: "presence_ok s" and n: "named_sockets s"
    and i: "index_complete s" and e: "entries_have_receipts s"
    by (simp_all add: projection_ok_def)
  have "consistent ?s'" using c unfolding clear_messageStatus_def by (rule consistent_redis_del)
  moreover have "presence_ok ?s'"
    using p presence_ok_cong [of ?s' s]
    by (simp add: clear_messageStatus_def redis_get_del)
  moreover have "named_sockets ?s'"
    using n named_sockets_cong [of ?s' s] by (simp add: clear_messageStatus_def)
  moreover have "index_complete ?s'"
    unfolding index_complete_def
  proof (intro allI impI)
    fix m p r'
    assume r: "receipt (messages ?s') m p = Some SENT \<or> receipt (messages ?s') m p = Some DELIVERED"
      and rm: "room_of (messages ?s') m = Some r'"
    have ms: "messages ?s' = messages s" by (simp add: clear_messageStatus_def)
    from r rm have "receipt (messages s) m p = Some SENT \<or> receipt (messages s) m p = Some DELIVERED"
      and "room_of (messages s) m = Some r'" by (simp_all add: ms)
    with i have cnt: "counted s (messageStatusKey p r' m)" by (rule index_completeD)
    have "wf_id m" using room_of_msg_wf(1) [of s m r'] c rm by (simp add: consistent_def ms)
    then have "CHR ''*'' \<notin> set m" by (auto simp: wf_id_def)
    from wildcard_key_differs [OF this] have "messageStatusKey u r ''*'' \<noteq> messageStatusKey p r' m" .
    then show "counted ?s' (messageStatusKey p r' m)"
      using cnt by (auto simp: counted_def clear_messageStatus_def redis_get_del)
  qed
  moreover have "entries_have_receipts ?s'"
    using e by (auto simp: entries_have_receipts_def counted_def clear_messageStatus_def redis_get_del
        split: if_splits)
  ultimately show ?thesis by (simp add: projection_ok_def)
qed

text \<open>Loading messages.\<close>

lemma load_step_projection:
  fixes u :: string
  assumes ids: "ids_ok s" and i: "index_complete s" and e: "entries_have_receipts s"
    and rm: "room_of (messages s) m = Some r"
  defines "s2 \<equiv> (updateMessageStatus m u SEEN s)
                   \<lparr>redis := redis_del (messageStatusKey u r m) (redis (updateMessageStatus m u SEEN s))\<rparr>"
  shows "index_complete s2" and "entries_have_receipts s2"
proof -
  have s2: "s2 = s\<lparr>messages := updateOne_status m u SEEN (messages s),
                   redis := redis_del (messageStatusKey u r m) (redis s)\<rparr>"
    unfolding s2_def by (simp add: updateMessageStatus_def)
  have wfm: "wf_id m" using room_of_msg_wf(1) [OF ids rm] .
  show "index_complete s2"
    unfolding index_complete_def
  proof (intro allI impI)
    fix m' p r'
    assume r2: "receipt (messages s2) m' p = Some SENT \<or> receipt (messages s2) m' p = Some DELIVERED"
      and rm2: "room_of (messages s2) m' = Some r'"
    have rm': "room_of (messages s) m' = Some r'" using rm2 by (simp add: s2)
    have ne: "\<not> (m' = m \<and> p = u)" and r0: "receipt (messages s) m' p = Some SENT \<or> receipt (messages s) m' p = Some DELIVERED"
      using r2 by (auto simp: s2 receipt_updateOne split: if_splits)
    from i r0 rm' have cnt: "counted s (messageStatusKey p r' m')" by (rule index_completeD)
    have wfm': "wf_id m'" using room_of_msg_wf(1) [OF ids rm'] .
    have "messageStatusKey p r' m' \<noteq> messageStatusKey u r m"
    proof
      assume eq: "messageStatusKey p r' m' = messageStatusKey u r m"
      from key_eq_message(1) [OF eq] wfm wfm' have mm: "m' = m" by (simp add: wf_id_no_colon)
      with rm rm' have "r' = r" by simp
      from key_eq_message(2) [OF eq _ _ this] wfm wfm' have "p = u" by (simp add: wf_id_no_colon)
      with mm ne show False by simp
    qed
    then show "counted s2 (messageStatusKey p r' m')"
      using cnt by (simp add: counted_def s2 redis_get_del)
  qed
  show "entries_have_receipts s2"
    using e by (auto simp: entries_have_receipts_def counted_def s2 redis_get_del receipt_updateOne
        split: if_splits)
qed

lemma load_loop_userKey:
  "redis_get (redis (load_loop u r msgs s)) (userKey q) = redis_get (redis s) (userKey q)"
  by (induction msgs arbitrary: s) (simp_all add: Let_def updateMessageStatus_def redis_get_del)

lemma load_loop_projection:
  assumes "pending_ok s" and "ids_ok s" and "index_complete s" and "entries_have_receipts s"
    and "\<forall>x \<in> set msgs. room_of (messages s) (msg_oid x) = Some r"
  shows "index_complete (load_loop u r msgs s) \<and> entries_have_receipts (load_loop u r msgs s)"
  using assms
proof (induction msgs arbitrary: s)
  case Nil
  then show ?case by simp
next
  case (Cons x msgs)
  let ?s2 = "(updateMessageStatus (msg_oid x) u SEEN s)
                   \<lparr>redis := redis_del (messageStatusKey u r (msg_oid x))
                              (redis (updateMessageStatus (msg_oid x) u SEEN s))\<rparr>"
  have rm: "room_of (messages s) (msg_oid x) = Some r" using Cons.prems(5) by simp
  have a: "pending_ok ?s2" using load_step(1) [OF Cons.prems(1) rm, of u] by simp
  have b: "ids_ok ?s2 = ids_ok s" by (rule ids_ok_cong) (simp_all add: updateMessageStatus_def)
  note p = load_step_projection [OF Cons.prems(2,3,4) rm, of u]
  have c: "\<forall>y \<in> set msgs. room_of (messages ?s2) (msg_oid y) = Some r"
    using Cons.prems(5) by (simp add: updateMessageStatus_def)
  from Cons.IH [OF a _ p c] b Cons.prems(2) show ?case by (simp add: Let_def)
qed

lemma handleLoad_userKey:
  "redis_get (redis (snd (handleLoadMessages c s))) (userKey q) = redis_get (redis s) (userKey q)"
  by (simp add: handleLoadMessages_def Let_def load_loop_userKey split: option.splits)

lemma handleLoad_projection:
  assumes "projection_ok s"
  shows "projection_ok (snd (handleLoadMessages c s))"
proof -
  let ?s' = "snd (handleLoadMessages c s)"
  from assms(1) have c: "consistent s" and p: "presence_ok s" and n: "named_sockets s"
    and i: "index_complete s" and e: "entries_have_receipts s"
    by (simp_all add: projection_ok_def)
  from c have ok: "pending_ok s" and ids: "ids_ok s" by (simp_all add: consistent_def)
  have d: "distinct (map msg_oid (messages s))" using ids by (simp add: ids_ok_def)
  have "consistent ?s'" using handleLoad_consistent' [OF c] by simp
  moreover have "presence_ok ?s'"
    using p presence_ok_cong [of ?s' s] by (simp add: handleLoad_userKey handleLoad_frame)
  moreover have "named_sockets ?s'"
    using n named_sockets_cong [of ?s' s] by (simp add: handleLoad_frame)
  moreover have "index_complete ?s' \<and> entries_have_receipts ?s'"
  proof -
    have "\<And>u r. index_complete (load_loop u r (filter (is_unread_for u) (getMessagesForRoom s r)) s)
       \<and> entries_have_receipts (load_loop u r (filter (is_unread_for u) (getMessagesForRoom s r)) s)"
    proof -
      fix u r
      have "\<forall>x \<in> set (filter (is_unread_for u) (getMessagesForRoom s r)).
             room_of (messages s) (msg_oid x) = Some r"
        using room_of_in_set [OF _ d] by (auto simp: getMessagesForRoom_set)
      from load_loop_projection [OF ok ids i e this] show "?thesis u r" .
    qed
    then show ?thesis using i e
      by (auto simp: handleLoadMessages_def Let_def split: option.splits)
  qed
  ultimately show ?thesis by (simp add: projection_ok_def)
qed

text \<open>The send loop.\<close>

lemma deliver_own_entry:
  assumes p: "presence_ok s"
    and r: "receipt (messages (deliver r m q s)) m q = Some SENT
            \<or> receipt (messages (deliver r m q s)) m q = Some DELIVERED"
  shows "counted (deliver r m q s) (messageStatusKey q r m)"
proof -
  let ?K = "messageStatusKey q r m"
  let ?c = "redis_get (redis s) (userKey q)"
  show ?thesis
  proof (cases "?c \<noteq> None \<and> ?c \<noteq> Some []")
    case False
    then show ?thesis by (auto simp: deliver_def Let_def counted_def redis_get_set)
  next
    case True
    then obtain c where c: "?c = Some c" "c \<noteq> []" by auto
    with p obtain socket where sk: "sockets s c = Some socket"
      unfolding presence_ok_def by blast
    show ?thesis
    proof (cases "r \<in> set (sock_rooms socket)")
      case True
      then have d: "deliver r m q s = updateMessageStatus m q SEEN (s\<lparr>redis := redis_set ?K (status_str SEEN) (redis s)\<rparr>)"
        using c sk by (simp add: deliver_def Let_def)
      from r show ?thesis unfolding d
        by (auto simp: updateMessageStatus_def receipt_updateOne split: if_splits)
    next
      case False
      let ?s2 = "updateMessageStatus m q DELIVERED (s\<lparr>redis := redis_set ?K (status_str DELIVERED) (redis s)\<rparr>)"
      have d: "deliver r m q s = snd (handleUnreadMessages socket ?s2)"
        using c sk False by (simp add: deliver_def Let_def)
      have "counted ?s2 ?K" by (simp add: counted_def updateMessageStatus_def redis_get_set)
      then show ?thesis unfolding d by (rule handleUnread_counted_mono)
    qed
  qed
qed

lemma deliver_counted_back:
  assumes "k \<noteq> messageStatusKey q r m" and "counted (deliver r m q s) k"
  shows "counted s k"
proof -
  have a: "\<And>st v. counted (updateMessageStatus m q st (s\<lparr>redis := redis_set (messageStatusKey q r m) v (redis s)\<rparr>)) k
            = counted s k"
    using assms(1) by (simp add: counted_set_other)
  have b: "\<And>v. counted (s\<lparr>redis := redis_set (messageStatusKey q r m) v (redis s)\<rparr>) k = counted s k"
    using assms(1) by (simp add: counted_set_only)
  have c: "\<And>socket v. counted (snd (handleUnreadMessages socket
              (updateMessageStatus m q DELIVERED (s\<lparr>redis := redis_set (messageStatusKey q r m) v (redis s)\<rparr>)))) k
            \<Longrightarrow> counted s k"
    using handleUnread_counted_back a by blast
  from assms(2) show ?thesis
    by (auto simp: deliver_def Let_def a b dest: c split: option.splits if_splits)
qed

lemma deliver_index_upto:
  assumes ok: "pending_ok s" and ids: "ids_ok s"
    and wf: "wf_id q" "wf_id r" "wf_id m"
    and rm: "room_of (messages s) m = Some r"
    and seen: "\<forall>q'. receipt (messages s) m q' = Some SEEN \<longrightarrow> joined s r q'"
    and p: "presence_ok s" and i: "index_complete_upto s m D"
  shows "index_complete_upto (deliver r m q s) m (insert q D)"
  unfolding index_complete_upto_def
proof (intro allI impI)
  let ?s' = "deliver r m q s"
  fix m' p' r'
  assume r': "receipt (messages ?s') m' p' = Some SENT \<or> receipt (messages ?s') m' p' = Some DELIVERED"
    and rm': "room_of (messages ?s') m' = Some r'" and d: "m' \<noteq> m \<or> p' \<in> insert q D"
  have rm0: "room_of (messages s) m' = Some r'" using rm' by (simp add: deliver_room_of)
  have ex: "receipt (messages s) m' p' \<noteq> None"
    using r' deliver_receipt_exists [of r m q s m' p'] by auto
  from receipts_mono_not_SEEN [OF deliver_consistent(2) [OF ok ids wf rm seen] r' ex]
  have r0: "receipt (messages s) m' p' = Some SENT \<or> receipt (messages s) m' p' = Some DELIVERED" .
  show "counted ?s' (messageStatusKey p' r' m')"
  proof (cases "messageStatusKey p' r' m' = messageStatusKey q r m")
    case True
    have wfm': "wf_id m'" using room_of_msg_wf(1) [OF ids rm0] .
    from key_eq_message(1) [OF True] wf(3) wfm' have mm: "m' = m" by (simp add: wf_id_no_colon)
    with rm rm0 have rr: "r' = r" by simp
    from key_eq_message(2) [OF True _ _ rr] wf(3) wfm' have pp: "p' = q" by (simp add: wf_id_no_colon)
    from deliver_own_entry [OF p] r' show ?thesis unfolding mm rr pp by simp
  next
    case False
    have "\<not> (m' = m \<and> p' = q)" using False rm rm0 by auto
    with d have "m' \<noteq> m \<or> p' \<in> D" by auto
    from index_complete_uptoD [OF i r0 rm0 this] have "counted s (messageStatusKey p' r' m')" .
    then show ?thesis using False by (rule deliver_counted)
  qed
qed

lemma deliver_entries:
  assumes e: "entries_have_receipts s" and wf: "wf_id q" "wf_id r" "wf_id m"
    and ex: "receipt (messages s) m q \<noteq> None"
  shows "entries_have_receipts (deliver r m q s)"
  unfolding entries_have_receipts_def
proof (intro allI impI)
  fix p r' m'
  assume wf': "wf_id p" "wf_id r'" "wf_id m'"
    and c: "counted (deliver r m q s) (messageStatusKey p r' m')"
  show "receipt (messages (deliver r m q s)) m' p \<noteq> None"
  proof (cases "messageStatusKey p r' m' = messageStatusKey q r m")
    case True
    from messageStatusKey_inj [OF True] wf wf' have "p = q \<and> r' = r \<and> m' = m"
      by (simp add: wf_id_no_colon)
    with ex show ?thesis by (simp add: deliver_receipt_exists)
  next
    case False
    from deliver_counted_back [OF False c] e wf' have "receipt (messages s) m' p \<noteq> None"
      unfolding entries_have_receipts_def by blast
    then show ?thesis by (simp add: deliver_receipt_exists)
  qed
qed

lemma deliver_loop_userKey:
  "redis_get (redis (deliver_loop r m ps s)) (userKey q) = redis_get (redis s) (userKey q)"
  by (induction ps arbitrary: s) (simp_all add: deliver_userKey)

lemma deliver_presence: "presence_ok (deliver r m q s) = presence_ok s"
  by (rule presence_ok_cong) (simp_all add: deliver_userKey deliver_frame)

lemma deliver_loop_projection:
  assumes "pending_ok s" and "ids_ok s"
    and "\<forall>q \<in> set ps. wf_id q \<and> receipt (messages s) m q \<noteq> None" and "wf_id r" and "wf_id m"
    and "room_of (messages s) m = Some r"
    and "\<forall>q'. receipt (messages s) m q' = Some SEEN \<longrightarrow> joined s r q'"
    and "presence_ok s" and "index_complete_upto s m D" and "entries_have_receipts s"
  shows "index_complete_upto (deliver_loop r m ps s) m (D \<union> set ps)
       \<and> entries_have_receipts (deliver_loop r m ps s)"
  using assms
proof (induction ps arbitrary: s D)
  case Nil
  then show ?case by simp
next
  case (Cons q ps)
  let ?s' = "deliver r m q s"
  have wfq: "wf_id q" and exq: "receipt (messages s) m q \<noteq> None" using Cons.prems(3) by simp_all
  note dc = deliver_consistent [OF Cons.prems(1,2) wfq Cons.prems(4,5,6,7)]
  have a: "ids_ok ?s'" using Cons.prems(2) by (simp add: deliver_ids_ok)
  have b: "\<forall>q \<in> set ps. wf_id q \<and> receipt (messages ?s') m q \<noteq> None"
    using Cons.prems(3) by (simp add: deliver_receipt_exists)
  have c: "room_of (messages ?s') m = Some r" using Cons.prems(6) by (simp add: deliver_room_of)
  have e: "\<forall>q'. receipt (messages ?s') m q' = Some SEEN \<longrightarrow> joined ?s' r q'"
    using dc(3) by (simp add: deliver_joined)
  have f: "presence_ok ?s'" using Cons.prems(8) by (simp add: deliver_presence)
  have g: "index_complete_upto ?s' m (insert q D)"
    using deliver_index_upto [OF Cons.prems(1,2) wfq Cons.prems(4,5,6,7,8,9)] .
  have h: "entries_have_receipts ?s'"
    using deliver_entries [OF Cons.prems(10) wfq Cons.prems(4,5) exq] .
  from Cons.IH [OF dc(1) a b Cons.prems(4,5) c e f g h] show ?case by simp
qed

text \<open>The operations.\<close>

lemma handleSend_projection:
  assumes "projection_ok s0" and "wf_id newId"
  shows "projection_ok (snd (handleSendMessage c body newId now s0))"
proof -
  from assms(1) have con: "consistent s0" and p: "presence_ok s0" and n: "named_sockets s0"
    and i: "index_complete s0" and e: "entries_have_receipts s0"
    by (simp_all add: projection_ok_def)
  have core: "\<And>roomId room senderId saved s1.
      getRoom s0 roomId = Some room \<Longrightarrow>
      saveMessage newId now roomId senderId body (recipients_of room senderId) s0 = Some (saved, s1) \<Longrightarrow>
      projection_ok (deliver_loop roomId (msg_oid saved) (recipients_of room senderId) s1)"
  proof -
    fix roomId room senderId saved s1
    assume room: "getRoom s0 roomId = Some room"
      and save: "saveMessage newId now roomId senderId body (recipients_of room senderId) s0 = Some (saved, s1)"
    let ?recips = "recipients_of room senderId"
    let ?s = "deliver_loop roomId newId ?recips s1"
    from save have fresh: "newId \<notin> set (map msg_oid (messages s0))"
      and s1: "s1 = s0\<lparr>messages := messages s0 @ [saved]\<rparr>" and sv: "msg_oid saved = newId"
      by (auto simp: saveMessage_def Let_def split: if_splits)
    have fresh': "msg_oid saved \<notin> set (map msg_oid (messages s0))" using fresh sv by simp
    note sc = save_consistent [OF con assms(2) room save]
    note sr = saved_receipt [OF save]
    have old: "\<And>m p. m \<noteq> newId \<Longrightarrow> receipt (messages s1) m p = receipt (messages s0) m p"
      "\<And>m. m \<noteq> newId \<Longrightarrow> room_of (messages s1) m = room_of (messages s0) m"
      using fresh' sv by (simp_all add: s1 receipt_append_fresh room_of_append_fresh)
    have cnt: "\<And>k. counted s1 k = counted s0 k" by (simp add: counted_def s1)
    have i1: "index_complete_upto s1 newId {}"
      unfolding index_complete_upto_def
    proof (intro allI impI)
      fix m' p' r'
      assume "receipt (messages s1) m' p' = Some SENT \<or> receipt (messages s1) m' p' = Some DELIVERED"
        and "room_of (messages s1) m' = Some r'" and "m' \<noteq> newId \<or> p' \<in> {}"
      then have "receipt (messages s0) m' p' = Some SENT \<or> receipt (messages s0) m' p' = Some DELIVERED"
        and "room_of (messages s0) m' = Some r'" by (simp_all add: old)
      with i have "counted s0 (messageStatusKey p' r' m')" by (rule index_completeD)
      then show "counted s1 (messageStatusKey p' r' m')" by (simp add: cnt)
    qed
    have e1: "entries_have_receipts s1"
      unfolding entries_have_receipts_def
    proof (intro allI impI)
      fix p' r' m'
      assume "wf_id p'" "wf_id r'" "wf_id m'" and "counted s1 (messageStatusKey p' r' m')"
      with e have ex: "receipt (messages s0) m' p' \<noteq> None"
        unfolding entries_have_receipts_def cnt by blast
      then obtain st where "receipt (messages s0) m' p' = Some st" by auto
      from receipt_Some_mem [OF this] fresh have "m' \<noteq> newId" by metis
      with ex show "receipt (messages s1) m' p' \<noteq> None" by (simp add: old)
    qed
    have p1: "presence_ok s1" using p presence_ok_cong [of s1 s0] sr(2,3) by simp
    have b: "\<forall>q \<in> set ?recips. wf_id q \<and> receipt (messages s1) newId q \<noteq> None"
      using sc(4) sr(1) by simp
    have seen1: "\<forall>q. receipt (messages s1) newId q = Some SEEN \<longrightarrow> joined s1 roomId q"
      using sc(6) by simp
    from deliver_loop_projection [OF sc(1,2) b sc(3) assms(2) sc(5) seen1 p1 i1 e1]
    have iu: "index_complete_upto ?s newId (set ?recips)" and es: "entries_have_receipts ?s"
      by simp_all
    have "index_complete ?s"
      unfolding index_complete_def
    proof (intro allI impI)
      fix m' p' r'
      assume r: "receipt (messages ?s) m' p' = Some SENT \<or> receipt (messages ?s) m' p' = Some DELIVERED"
        and rm: "room_of (messages ?s) m' = Some r'"
      have "m' \<noteq> newId \<or> p' \<in> set ?recips"
      proof (cases "m' = newId")
        case True
        from r have "receipt (messages ?s) newId p' \<noteq> None" unfolding True by auto
        then have "receipt (messages s1) newId p' \<noteq> None" by (simp add: deliver_loop_receipt_exists)
        then show ?thesis using sr(1) [of p'] by (auto split: if_splits)
      next
        case False
        then show ?thesis by simp
      qed
      from index_complete_uptoD [OF iu r rm this] show "counted ?s (messageStatusKey p' r' m')" .
    qed
    moreover have "consistent ?s"
      using send_core [OF con assms(2) room refl save] by (simp add: sv)
    moreover have "presence_ok ?s"
      using p1 presence_ok_cong [of ?s s1] by (simp add: deliver_loop_userKey deliver_loop_frame)
    moreover have "named_sockets ?s"
      using n named_sockets_cong [of ?s s0] sr(3) by (simp add: deliver_loop_frame)
    ultimately show "projection_ok (deliver_loop roomId (msg_oid saved) ?recips s1)"
      using es by (simp add: projection_ok_def sv)
  qed
  show ?thesis using assms(1) core
    by (auto simp: handleSendMessage_def Let_def split: option.splits)
qed

lemma handleJoin_projection:
  assumes "projection_ok s"
  shows "projection_ok (snd (handleJoinRoom c roomId s))"
proof (cases "sockets s c")
  case None
  then show ?thesis using assms by (simp add: handleJoinRoom_def)
next
  case (Some client)
  let ?c1 = "client\<lparr>sock_roomId := Some roomId\<rparr>"
  let ?s1 = "s\<lparr>sockets := (sockets s)(c \<mapsto> ?c1)\<rparr>"
  let ?c2 = "?c1\<lparr>sock_rooms := List.insert roomId (sock_rooms ?c1)\<rparr>"
  let ?s2 = "?s1\<lparr>sockets := (sockets ?s1)(c \<mapsto> ?c2)\<rparr>"
  let ?s3 = "clear_messageStatus (sock_userId client) roomId ?s2"
  have p1: "projection_ok ?s1" using projection_socket_upd [OF assms Some, of ?c1] by simp
  have "sockets ?s1 c = Some ?c1" by simp
  from projection_socket_upd [OF p1 this, of ?c2] have "projection_ok ?s2" by simp
  then have "projection_ok ?s3" by (rule clear_projection)
  then have "projection_ok (snd (handleLoadMessages c ?s3))" by (rule handleLoad_projection)
  then show ?thesis using Some p1 assms
    by (auto simp: handleJoinRoom_def Let_def split: option.splits)
qed

lemma handleLeave_projection:
  assumes "projection_ok s"
  shows "projection_ok (snd (handleLeaveRoom c s))"
proof (cases "sockets s c")
  case None
  then show ?thesis using assms by (simp add: handleLeaveRoom_def)
next
  case (Some client)
  have wfu: "wf_id (sock_userId client)"
    using assms Some by (auto simp: projection_ok_def consistent_def dest: ids_ok_socket_wf)
  have "\<And>roomId. projection_ok (snd (handleUnreadMessages (client\<lparr>sock_rooms := removeAll roomId (sock_rooms client)\<rparr>)
            (clear_messageStatus (sock_userId client) roomId
              (s\<lparr>sockets := (sockets s)(c \<mapsto> client\<lparr>sock_rooms := removeAll roomId (sock_rooms client)\<rparr>)\<rparr>))))"
  proof -
    fix roomId
    let ?c1 = "client\<lparr>sock_rooms := removeAll roomId (sock_rooms client)\<rparr>"
    let ?s1 = "s\<lparr>sockets := (sockets s)(c \<mapsto> ?c1)\<rparr>"
    let ?s2 = "clear_messageStatus (sock_userId client) roomId ?s1"
    have "projection_ok ?s1" using projection_socket_upd [OF assms Some, of ?c1] by simp
    then have p2: "projection_ok ?s2" by (rule clear_projection)
    have "wf_id (sock_userId ?c1)" using wfu by simp
    from handleUnread_projection [OF p2 this]
    show "projection_ok (snd (handleUnreadMessages ?c1 ?s2))" .
  qed
  then show ?thesis using Some assms
    by (auto simp: handleLeaveRoom_def Let_def split: option.splits)
qed

lemma handleConnection_projection:
  assumes "projection_ok s" and "sockets s c = None"
    and "case token of None \<Rightarrow> True | Some userId \<Rightarrow> wf_id userId \<and> userId \<noteq> []"
  shows "projection_ok (handleConnection c token s)"
proof (cases token)
  case None
  then show ?thesis using assms by (simp add: handleConnection_def)
next
  case (Some userId)
  let ?client = "\<lparr>sock_userId = userId, sock_roomId = None, sock_rooms = []\<rparr>"
  let ?s1 = "s\<lparr>sockets := (sockets s)(c \<mapsto> ?client)\<rparr>"
  let ?s2 = "?s1\<lparr>redis := redis_set (userKey userId) c (redis ?s1)\<rparr>"
  from assms(1) have con: "consistent s" and p: "presence_ok s" and n: "named_sockets s"
    and i: "index_complete s" and e: "entries_have_receipts s"
    by (simp_all add: projection_ok_def)
  have wfu: "wf_id (sock_userId ?client)" and ne: "userId \<noteq> []" using assms(3) Some by simp_all
  have c1: "consistent ?s1" using con wfu by (rule consistent_sockets_upd)
  then have c2: "consistent ?s2"
    using pending_ok_set_other' [of ?s1 "userKey userId" ?s2 c]
    by (simp add: consistent_def)
  have p2: "presence_ok ?s2"
    unfolding presence_ok_def
  proof (intro allI impI)
    fix q cid
    assume l: "redis_get (redis ?s2) (userKey q) = Some cid" and cne: "cid \<noteq> []"
    show "\<exists>socket. sockets ?s2 cid = Some socket \<and> sock_userId socket = q"
    proof (cases "q = userId")
      case True
      with l show ?thesis by (simp add: redis_get_set)
    next
      case False
      with l have "redis_get (redis s) (userKey q) = Some cid" by (simp add: redis_get_set)
      with p cne obtain sock where sk: "sockets s cid = Some sock" "sock_userId sock = q"
        unfolding presence_ok_def by blast
      with assms(2) have "cid \<noteq> c" by auto
      with sk show ?thesis by simp
    qed
  qed
  have n2: "named_sockets ?s2"
    using n ne unfolding named_sockets_def ran_def by (auto split: if_splits)
  have "index_complete ?s2" "entries_have_receipts ?s2"
    using i e index_complete_cong [of ?s2 s]
    by (simp_all add: counted_def redis_get_set userKey_neq_messageStatusKey [symmetric])
  with c2 p2 n2 have "projection_ok ?s2" by (simp add: projection_ok_def)
  from handleUnread_projection [OF this wfu] show ?thesis
    using Some by (simp add: handleConnection_def Let_def)
qed

lemma handleDisconnect_projection:
  assumes "projection_ok s"
  shows "projection_ok (handleDisconnect c s)"
proof (cases "sockets s c")
  case None
  then show ?thesis using assms by (simp add: handleDisconnect_def)
next
  case (Some client)
  let ?u = "sock_userId client"
  let ?s1 = "s\<lparr>sockets := (sockets s)(c := None)\<rparr>"
  let ?s2 = "?s1\<lparr>redis := redis_del (userKey ?u) (redis ?s1)\<rparr>"
  from assms(1) have con: "consistent s" and p: "presence_ok s" and n: "named_sockets s"
    and i: "index_complete s" and e: "entries_have_receipts s"
    by (simp_all add: projection_ok_def)
  have ne: "?u \<noteq> []" using n Some by (auto simp: named_sockets_def ran_def)
  have d: "handleDisconnect c s = ?s2" using Some ne by (simp add: handleDisconnect_def Let_def)
  have "consistent ?s2" using handleDisconnect_consistent [OF con, of c] by (simp add: d)
  moreover have "presence_ok ?s2"
    unfolding presence_ok_def
  proof (intro allI impI)
    fix q cid
    assume l: "redis_get (redis ?s2) (userKey q) = Some cid" and cne: "cid \<noteq> []"
    then have qu: "q \<noteq> ?u" and l0: "redis_get (redis s) (userKey q) = Some cid"
      by (auto simp: redis_get_del split: if_splits)
    with p cne obtain sock where sk: "sockets s cid = Some sock" "sock_userId sock = q"
      unfolding presence_ok_def by blast
    have "cid \<noteq> c" using sk Some qu by auto
    with sk show "\<exists>socket. sockets ?s2 cid = Some socket \<and> sock_userId socket = q" by simp
  qed
  moreover have "named_sockets ?s2"
    using n unfolding named_sockets_def ran_def by (auto split: if_splits)
  moreover have "index_complete ?s2" "entries_have_receipts ?s2"
    using i e index_complete_cong [of ?s2 s]
    by (simp_all add: counted_def redis_get_del userKey_neq_messageStatusKey [symmetric])
  ultimately show ?thesis by (simp add: projection_ok_def d)
qed

lemma createRoom_projection:
  assumes "projection_ok s" and "wf_id userId" and "wf_id newId"
    and "\<forall>p \<in> set (dto_participantIds dto). wf_id p"
  shows "projection_ok (snd (createRoom dto userId newId s))"
proof -
  let ?s' = "snd (createRoom dto userId newId s)"
  have fr: "redis ?s' = redis s" "sockets ?s' = sockets s" "messages ?s' = messages s"
    by (simp_all add: createRoom_def service_createRoom_def Let_def split: option.splits list.splits)
  have "consistent ?s'" using createRoom_consistent [of s userId newId dto] assms
    by (simp add: projection_ok_def)
  moreover have "presence_ok ?s' = presence_ok s" by (rule presence_ok_cong) (simp_all add: fr)
  moreover have "named_sockets ?s' = named_sockets s" by (rule named_sockets_cong) (simp add: fr)
  moreover have "index_complete ?s' = index_complete s" "entries_have_receipts ?s' = entries_have_receipts s"
    by (rule index_complete_cong; simp add: fr counted_def)+
  ultimately show ?thesis using assms(1) by (simp add: projection_ok_def)
qed

lemma step_projection:
  assumes "projection_ok s" and "wf_event e" and "named_event e"
  shows "projection_ok (step e s)"
proof (cases e)
  case (Connect c token)
  then show ?thesis using assms handleConnection_projection [of s c token]
    by (auto split: option.splits)
next
  case (Disconnect c)
  then show ?thesis using assms handleDisconnect_projection by simp
next
  case (JoinRoom c r)
  then show ?thesis using assms handleJoin_projection by simp
next
  case (LeaveRoom c)
  then show ?thesis using assms handleLeave_projection by simp
next
  case (SendMessage c body newId now)
  then show ?thesis using assms handleSend_projection by simp
next
  case (LoadMessages c)
  then show ?thesis using assms handleLoad_projection by simp
next
  case (UnreadMessages c)
  show ?thesis
  proof (cases "sockets s c")
    case None
    then show ?thesis using assms UnreadMessages by simp
  next
    case (Some client)
    have "wf_id (sock_userId client)"
      using assms Some by (auto simp: projection_ok_def consistent_def dest: ids_ok_socket_wf)
    from handleUnread_projection [OF assms(1) this] Some UnreadMessages show ?thesis by simp
  qed
next
  case (CreateRoom dto userId newId)
  then show ?thesis using assms createRoom_projection by simp
qed

lemma run_projection:
  assumes "projection_ok s" and "\<forall>e \<in> set es. wf_event e \<and> named_event e"
  shows "projection_ok (run es s)"
  using assms
proof (induction es arbitrary: s)
  case Nil
  then show ?case by simp
next
  case (Cons e es)
  from step_projection [of s e] Cons.prems have "projection_ok (step e s)" by simp
  from Cons.IH [OF this] Cons.prems show ?case by simp
qed

lemma projection_init: "projection_ok init_state"
  using consistent_init
  by (simp add: projection_ok_def presence_ok_def named_sockets_def index_complete_def
      entries_have_receipts_def init_state_def redis_get_def receipt_def getMessageById_def counted_def)

lemma send_to_joined:
  assumes "consistent s0" and "wf_id newId"
    and "handleSendMessage c body newId now s0 = (Reply_ok msg, s)"
    and "sockets s0 c = Some sender" and "sock_roomId sender = Some roomId"
    and "getRoom s0 roomId = Some room"
    and "p \<in> set (recipients_of room (sock_userId sender))"
    and "joined s0 roomId p"
  shows "redis_get (redis s) (messageStatusKey p roomId newId) = Some (status_str SEEN)"
    and "receipt (messages s) newId p = Some SEEN"
proof -
  let ?recips = "recipients_of room (sock_userId sender)"
  let ?K = "messageStatusKey p roomId newId"
  from successful_send [OF assms(3,4,5,6)] obtain saved s1 where
    save: "saveMessage newId now roomId (sock_userId sender) body ?recips s0 = Some (saved, s1)"
    and s: "s = deliver_loop roomId newId ?recips s1" by blast
  note sc = save_consistent [OF assms(1,2,6) save]
  note sr = saved_receipt [OF save]
  have r1: "receipt (messages s1) newId p = Some SENT" using sr(1) [of p] assms(7) by simp
  have wfp: "wf_id p" using sc(4) assms(7) by simp
  have j1: "joined s1 roomId p" using assms(8) sr(2,3) by (auto simp: joined_def split: option.splits)
  have seen1: "\<forall>q. receipt (messages s1) newId q = Some SEEN \<longrightarrow> joined s1 roomId q"
    using sc(6) by simp
  have "last (split_on CHR '':'' ?K) = newId"
    using assms(2) by (simp add: last_split_key_message wf_id_no_colon)
  then have nc1: "\<not> counted s1 ?K" using sc(7) by simp
  have ex1: "receipt (messages s1) newId p \<noteq> None" using r1 by simp
  from deliver_loop_joined_recipient [OF sc(1,2) wfp sc(4) sc(3) assms(2) sc(5) seen1 j1 nc1 ex1]
    assms(7)
  show "redis_get (redis s) ?K = Some (status_str SEEN)" and "receipt (messages s) newId p = Some SEEN"
    unfolding s by simp_all
qed

text \<open>
  C2 (as the source has it). In every state reached from the initial one by operations
  whose identifiers are well formed and whose connecting users have non-empty ids:
  for every user, room and message id, the pending entry holds SENT or DELIVERED
  exactly when the message is stored for that room and the user's receipt in it is SENT
  or DELIVERED. A successful send from such a state to a recipient whose presence entry
  names a socket in the room does write the recipient's pending entry, with the value
  SEEN, and makes the receipt SEEN.
\<close>

theorem pending_index_is_projection:
  assumes "\<forall>e \<in> set es. wf_event e \<and> named_event e"
  shows "(\<forall>p r m. wf_id p \<longrightarrow> wf_id r \<longrightarrow> wf_id m \<longrightarrow>
            (counted (run es init_state) (messageStatusKey p r m)
             \<longleftrightarrow> (receipt (messages (run es init_state)) m p = Some SENT
                   \<or> receipt (messages (run es init_state)) m p = Some DELIVERED)
                  \<and> room_of (messages (run es init_state)) m = Some r))
       \<and> (\<forall>c body newId now msg s' sender roomId room p.
            wf_id newId \<longrightarrow>
            handleSendMessage c body newId now (run es init_state) = (Reply_ok msg, s') \<longrightarrow>
            sockets (run es init_state) c = Some sender \<longrightarrow> sock_roomId sender = Some roomId \<longrightarrow>
            getRoom (run es init_state) roomId = Some room \<longrightarrow>
            p \<in> set (recipients_of room (sock_userId sender)) \<longrightarrow>
            joined (run es init_state) roomId p \<longrightarrow>
            redis_get (redis s') (messageStatusKey p roomId newId) = Some (status_str SEEN)
            \<and> receipt (messages s') newId p = Some SEEN)"
proof -
  let ?s = "run es init_state"
  have pr: "projection_ok ?s" using run_projection [OF projection_init assms] .
  then have con: "consistent ?s" and i: "index_complete ?s" and e: "entries_have_receipts ?s"
    by (simp_all add: projection_ok_def)
  from con have ok: "pending_ok ?s" by (simp add: consistent_def)
  have a: "\<forall>p r m. wf_id p \<longrightarrow> wf_id r \<longrightarrow> wf_id m \<longrightarrow>
            (counted ?s (messageStatusKey p r m)
             \<longleftrightarrow> (receipt (messages ?s) m p = Some SENT \<or> receipt (messages ?s) m p = Some DELIVERED)
                  \<and> room_of (messages ?s) m = Some r)"
  proof (intro allI impI iffI)
    fix p r m
    assume wf: "wf_id p" "wf_id r" "wf_id m" and c: "counted ?s (messageStatusKey p r m)"
    from c obtain v where v: "redis_get (redis ?s) (messageStatusKey p r m) = Some v"
      "v = status_str SENT \<or> v = status_str DELIVERED" by (auto simp: counted_def)
    from ok v(1) have "pending_entry_ok (messages ?s) (messageStatusKey p r m) v"
      by (simp add: pending_ok_alt)
    from pending_entry_okD [OF this] v(2) obtain p' r' m' where
      k: "messageStatusKey p r m = messageStatusKey p' r' m'" and wf': "wf_id p'" "wf_id r'"
      and st: "receipt (messages ?s) m' p' \<noteq> Some SEEN" "room_of (messages ?s) m' = Some r'"
      by auto
    from messageStatusKey_inj [OF k] wf wf' have eq: "p = p'" "r = r'" "m = m'"
      by (simp_all add: wf_id_no_colon)
    from e wf c have "receipt (messages ?s) m p \<noteq> None"
      unfolding entries_have_receipts_def by blast
    then obtain st' where st': "receipt (messages ?s) m p = Some st'" by auto
    with st(1) eq have "st' \<noteq> SEEN" by auto
    with st' have "receipt (messages ?s) m p = Some SENT \<or> receipt (messages ?s) m p = Some DELIVERED"
      by (cases st') auto
    with st(2) eq
    show "(receipt (messages ?s) m p = Some SENT \<or> receipt (messages ?s) m p = Some DELIVERED)
          \<and> room_of (messages ?s) m = Some r" by simp
  next
    fix p r m
    assume "(receipt (messages ?s) m p = Some SENT \<or> receipt (messages ?s) m p = Some DELIVERED)
          \<and> room_of (messages ?s) m = Some r"
    then show "counted ?s (messageStatusKey p r m)" using index_completeD [OF i] by blast
  qed
  have b: "\<forall>c body newId now msg s' sender roomId room p.
            wf_id newId \<longrightarrow>
            handleSendMessage c body newId now ?s = (Reply_ok msg, s') \<longrightarrow>
            sockets ?s c = Some sender \<longrightarrow> sock_roomId sender = Some roomId \<longrightarrow>
            getRoom ?s roomId = Some room \<longrightarrow>
            p \<in> set (recipients_of room (sock_userId sender)) \<longrightarrow>
            joined ?s roomId p \<longrightarrow>
            redis_get (redis s') (messageStatusKey p roomId newId) = Some (status_str SEEN)
            \<and> receipt (messages s') newId p = Some SEEN"
    using send_to_joined [OF con] by blast
  from a b show ?thesis by blast
qed

text \<open>
  C2 (as the specification states it) fails: alice and bob have both joined the room
  and no pending entry for bob and the new message exists; alice sends; afterwards the
  entry exists, with value SEEN, and bob's receipt is SEEN.
\<close>

theorem pending_entry_for_joined_recipient_counterexample:
  "joined ex_both_joined ex_room_id ''bob''
   \<and> redis_get (redis ex_both_joined) (messageStatusKey ''bob'' ex_room_id ex_msg_id) = None
   \<and> redis_get (redis (snd (handleSendMessage ''c1'' ''hi'' ex_msg_id 1 ex_both_joined)))
        (messageStatusKey ''bob'' ex_room_id ex_msg_id) = Some ''SEEN''
   \<and> receipt (messages (snd (handleSendMessage ''c1'' ''hi'' ex_msg_id 1 ex_both_joined)))
        ex_msg_id ''bob'' = Some SEEN"
  by (simp add: ex_both_joined_def joined_def eval_defs unread_loop.simps)

theorem pending_index_is_projection_witness:
  "counted (run [CreateRoom ex_dto ''alice'' ex_room_id,
                 Connect ''c1'' (Some ''alice''), JoinRoom ''c1'' ex_room_id,
                 SendMessage ''c1'' ''hi'' ex_msg_id 1] init_state)
     (messageStatusKey ''bob'' ex_room_id ex_msg_id)
   \<and> redis_get (redis (snd (handleSendMessage ''c1'' ''hi'' ex_msg_id 1
        (run [CreateRoom ex_dto ''alice'' ex_room_id,
              Connect ''c1'' (Some ''alice''), JoinRoom ''c1'' ex_room_id,
              Connect ''c2'' (Some ''bob''), JoinRoom ''c2'' ex_room_id] init_state))))
        (messageStatusKey ''bob'' ex_room_id ex_msg_id) = Some ''SEEN''"
proof -
  let ?es1 = "[CreateRoom ex_dto ''alice'' ex_room_id,
                 Connect ''c1'' (Some ''alice''), JoinRoom ''c1'' ex_room_id,
                 SendMessage ''c1'' ''hi'' ex_msg_id 1]"
  let ?es2 = "[CreateRoom ex_dto ''alice'' ex_room_id,
              Connect ''c1'' (Some ''alice''), JoinRoom ''c1'' ex_room_id,
              Connect ''c2'' (Some ''bob''), JoinRoom ''c2'' ex_room_id]"
  have wf1: "\<forall>e \<in> set ?es1. wf_event e \<and> named_event e"
    by (simp add: wf_id_def ex_dto_def ex_room_id_def ex_msg_id_def)
  have wf2: "\<forall>e \<in> set ?es2. wf_event e \<and> named_event e"
    by (simp add: wf_id_def ex_dto_def ex_room_id_def)
  have wfb: "wf_id ''bob''" and wfr: "wf_id ex_room_id" and wfm: "wf_id ex_msg_id"
    by (simp_all add: wf_id_def ex_room_id_def ex_msg_id_def)
  have r1: "run ?es1 init_state = ex_after_send"
    by (simp add: ex_after_send_def ex_before_send_def)
  have rm: "room_of (messages ex_after_send) ex_msg_id = Some ex_room_id"
    by (simp add: ex_after_send_def ex_before_send_def room_of_def eval_defs unread_loop.simps)
  from pending_index_is_projection [OF wf1] wfb wfr wfm
  have "counted (run ?es1 init_state) (messageStatusKey ''bob'' ex_room_id ex_msg_id)
        \<longleftrightarrow> (receipt (messages (run ?es1 init_state)) ex_msg_id ''bob'' = Some SENT
              \<or> receipt (messages (run ?es1 init_state)) ex_msg_id ''bob'' = Some DELIVERED)
             \<and> room_of (messages (run ?es1 init_state)) ex_msg_id = Some ex_room_id"
    by blast
  then have a: "counted (run ?es1 init_state) (messageStatusKey ''bob'' ex_room_id ex_msg_id)"
    unfolding r1 using ex_after_send_eval(3) rm by simp
  have r2: "run ?es2 init_state = ex_both_joined" by (simp add: ex_both_joined_def)
  have send: "handleSendMessage ''c1'' ''hi'' ex_msg_id 1 (run ?es2 init_state)
       = (Reply_ok ''Success'', snd (handleSendMessage ''c1'' ''hi'' ex_msg_id 1 (run ?es2 init_state)))"
    unfolding r2 using ex_both_joined_eval(4) by (simp add: prod_eq_iff)
  have bob_in: "''bob'' \<in> set (recipients_of
       \<lparr>room_oid = ex_room_id, room_name = Some ''Team'', room_type = GROUP, room_status = True,
             room_image = Some [],
             participants = [\<lparr>p_userId = ''bob'', p_status = REQUEST, p_is_deleted = False\<rparr>,
                             \<lparr>p_userId = ''alice'', p_status = ACCEPT, p_is_deleted = False\<rparr>],
             admins = [''alice''], room_created_by = ''alice'', room_updated_by = ''alice'',
             room_is_deleted = False\<rparr>
       (sock_userId \<lparr>sock_userId = ''alice'', sock_roomId = Some ex_room_id, sock_rooms = [ex_room_id]\<rparr>))"
    by (simp add: recipients_of_def)
  from pending_index_is_projection [OF wf2]
  have "\<forall>c body newId now msg s' sender roomId room p.
            wf_id newId \<longrightarrow>
            handleSendMessage c body newId now (run ?es2 init_state) = (Reply_ok msg, s') \<longrightarrow>
            sockets (run ?es2 init_state) c = Some sender \<longrightarrow> sock_roomId sender = Some roomId \<longrightarrow>
            getRoom (run ?es2 init_state) roomId = Some room \<longrightarrow>
            p \<in> set (recipients_of room (sock_userId sender)) \<longrightarrow>
            joined (run ?es2 init_state) roomId p \<longrightarrow>
            redis_get (redis s') (messageStatusKey p roomId newId) = Some (status_str SEEN)
            \<and> receipt (messages s') newId p = Some SEEN" by blast
  from this [rule_format, OF wfm send _ _ _ bob_in]
    ex_both_joined_eval(1,2,3) [folded r2]
  have b: "redis_get (redis (snd (handleSendMessage ''c1'' ''hi'' ex_msg_id 1 (run ?es2 init_state))))
        (messageStatusKey ''bob'' ex_room_id ex_msg_id) = Some ''SEEN''"
    by simp
  from a b show ?thesis by blast
qed

section \<open>A recipient who is in the room is never marked DELIVERED\<close>






end
